theory Spec2Isabelle
  imports
    Complex_Main
    "HOL-Library.Word"
    "HOL-Library.Char_ord"
    "HOL-Library.List_Lexorder"
    "HOL-Library.Multiset"
    "HOL-Library.AList"
begin

unbundle bit_operations_syntax

section \<open>The BingX client: credentials and construction\<close>

text \<open>
  The package keeps three sentinel errors. Only the first one can come out of
  \<open>NewClient\<close>; the other two belong to the transport side of \<open>doRequest\<close>.
  \<open>UnsupportedValueError\<close> is the error of \<open>json.Marshal\<close> on a NaN or an
  infinity, which \<open>structToMap\<close> hands on.
\<close>

datatype error =
    ErrInvalidCredentials
  | ErrInvalidResponse
  | ErrRequestFailed
  | UnsupportedValueError

text \<open>
  An \<open>*http.Client\<close> is an opaque handle here: \<open>nil\<close> is \<open>None\<close>, and
  \<open>http.DefaultClient\<close> is a distinguished handle.
\<close>

datatype http_client = DefaultClient | CustomClient nat

record Config =
  APIKey :: string
  APISecret :: string
  BaseURL :: string
  HTTPClient :: "http_client option"

record Client =
  apiKey :: string
  apiSecret :: string
  baseURL :: string
  httpClient :: http_client

definition defaultBaseURL :: string where
  "defaultBaseURL = ''https://open-api.bingx.com''"

definition apiKeyHeader :: string where
  "apiKeyHeader = ''X-BX-APIKEY''"

text \<open>
  \<open>NewClient\<close> returns \<open>(nil, ErrInvalidCredentials)\<close> as \<open>Inl\<close> and
  \<open>(&Client{...}, nil)\<close> as \<open>Inr\<close>.
\<close>

definition NewClient :: "Config \<Rightarrow> error + Client" where
  "NewClient cfg =
     (if APIKey cfg = [] \<or> APISecret cfg = [] then Inl ErrInvalidCredentials
      else
        let baseURL' = (if BaseURL cfg = [] then defaultBaseURL else BaseURL cfg);
            httpClient' = (case HTTPClient cfg of None \<Rightarrow> DefaultClient | Some h \<Rightarrow> h)
        in Inr \<lparr> apiKey = APIKey cfg, apiSecret = APISecret cfg,
                 baseURL = baseURL', httpClient = httpClient' \<rparr>)"

section \<open>The library functions the client calls\<close>

text \<open>
  A Go \<open>string\<close> is a sequence of bytes, and so is a HOL \<open>string\<close>. The order on
  strings used by \<open>sort.Strings\<close> and by \<open><\<close> on Go strings is the lexicographic
  order on the byte values, a proper prefix being smaller: this is the order of
  \<open>Char_ord\<close> and \<open>List_Lexorder\<close>.
\<close>

subsection \<open>Package strings\<close>

text \<open>\<open>strings.Join(elems, sep)\<close>.\<close>

fun strings_Join :: "string list \<Rightarrow> string \<Rightarrow> string" where
  "strings_Join [] sep = []"
| "strings_Join [x] sep = x"
| "strings_Join (x # y # ys) sep = x @ sep @ strings_Join (y # ys) sep"

text \<open>\<open>strings.TrimRight(s, cutset)\<close>: drops every trailing byte that is in the cutset.\<close>

definition strings_TrimRight :: "string \<Rightarrow> string \<Rightarrow> string" where
  "strings_TrimRight s cutset = rev (dropWhile (\<lambda>c. c \<in> set cutset) (rev s))"

text \<open>\<open>strings.ContainsAny(s, chars)\<close>.\<close>

definition strings_ContainsAny :: "string \<Rightarrow> string \<Rightarrow> bool" where
  "strings_ContainsAny s chars = list_ex (\<lambda>c. c \<in> set chars) s"

text \<open>
  \<open>strings.ReplaceAll(s, old, new)\<close> for a non-empty \<open>old\<close>: the non-overlapping
  occurrences of \<open>old\<close> are replaced from left to right. (With an empty \<open>old\<close> Go
  inserts \<open>new\<close> between the runes; the client never does that, and the model leaves
  \<open>s\<close> alone.)
\<close>

function strings_ReplaceAll :: "string \<Rightarrow> string \<Rightarrow> string \<Rightarrow> string" where
  "strings_ReplaceAll s old new =
     (if s = [] \<or> old = [] then s
      else if take (length old) s = old
        then new @ strings_ReplaceAll (drop (length old) s) old new
      else hd s # strings_ReplaceAll (tl s) old new)"
  by pat_completeness auto
termination
  by (relation "measure (\<lambda>(s, old, new). length s)") (auto simp: neq_Nil_conv)

declare strings_ReplaceAll.simps [simp del]

subsection \<open>Package net/url\<close>

definition upperhex_table :: string where
  "upperhex_table = ''0123456789ABCDEF''"

definition upperhex :: "nat \<Rightarrow> char" where
  "upperhex n = upperhex_table ! (n mod 16)"

text \<open>
  \<open>shouldEscape(c, encodeQueryComponent)\<close>: everything is escaped but the ASCII letters
  and digits and the four marks \<open>- _ . ~\<close>.
\<close>

definition shouldEscape :: "char \<Rightarrow> bool" where
  "shouldEscape c =
     (let n = of_char c :: nat in
      \<not> ((97 \<le> n \<and> n \<le> 122) \<or> (65 \<le> n \<and> n \<le> 90) \<or> (48 \<le> n \<and> n \<le> 57)
         \<or> c \<in> set ''-_.~''))"

text \<open>
  \<open>url.QueryEscape(s)\<close>: a space becomes \<open>+\<close>, every other byte that must be escaped
  becomes \<open>%XX\<close> with two upper-case hexadecimal digits.
\<close>

definition escape_byte :: "char \<Rightarrow> string" where
  "escape_byte c =
     (if c = CHR '' '' then ''+''
      else if shouldEscape c
        then [CHR ''%'', upperhex (of_char c div 16), upperhex (of_char c mod 16)]
      else [c])"

definition url_QueryEscape :: "string \<Rightarrow> string" where
  "url_QueryEscape s = concat (map escape_byte s)"

subsection \<open>Package fmt: integers\<close>

definition digit_char :: "nat \<Rightarrow> char" where
  "digit_char n = ''0123456789'' ! (n mod 10)"

text \<open>The decimal digits of a natural number, without leading zeros (\<open>0\<close> is \<open>''0''\<close>).\<close>

fun show_nat :: "nat \<Rightarrow> string" where
  "show_nat n = (if n < 10 then [digit_char n] else show_nat (n div 10) @ [digit_char n])"

declare show_nat.simps [simp del]

text \<open>The verb \<open>%d\<close> (and \<open>%v\<close>) on an integer.\<close>

definition show_int :: "int \<Rightarrow> string" where
  "show_int i = (if i < 0 then CHR ''-'' # show_nat (nat (- i)) else show_nat (nat i))"

subsection \<open>IEEE 754 binary64 and binary32 values\<close>

text \<open>
  A \<open>float64\<close> is its 64-bit pattern: one sign bit, eleven exponent bits, 52 fraction
  bits. \<open>decode64\<close> reads the pattern: \<open>Fin s m e\<close> is the finite number
  \<open>(-1)\<^sup>s \<sqdot> m \<sqdot> 2\<^sup>e\<close>.
\<close>

type_synonym float64 = "64 word"
type_synonym float32 = "32 word"

datatype fval = Fin bool nat int | Inf bool | NaN

definition decode64 :: "float64 \<Rightarrow> fval" where
  "decode64 w =
     (let n = unat w;
          s = (2 ^ 63 \<le> n);
          ex = (n div 2 ^ 52) mod 2 ^ 11;
          fr = n mod 2 ^ 52
      in if ex = 2047 then (if fr = 0 then Inf s else NaN)
         else if ex = 0 then Fin s fr (- 1074)
         else Fin s (2 ^ 52 + fr) (int ex - 1075))"

definition decode32 :: "float32 \<Rightarrow> fval" where
  "decode32 w =
     (let n = unat w;
          s = (2 ^ 31 \<le> n);
          ex = (n div 2 ^ 23) mod 2 ^ 8;
          fr = n mod 2 ^ 23
      in if ex = 255 then (if fr = 0 then Inf s else NaN)
         else if ex = 0 then Fin s fr (- 149)
         else Fin s (2 ^ 23 + fr) (int ex - 150))"

text \<open>
  The magnitude of a finite value is the fraction \<open>numer / denom\<close>, the denominator a
  power of two.
\<close>

fun numer :: "fval \<Rightarrow> nat" where
  "numer (Fin s m e) = m * 2 ^ nat e"
| "numer _ = 0"

fun denom :: "fval \<Rightarrow> nat" where
  "denom (Fin s m e) = 2 ^ nat (- e)"
| "denom _ = 1"

fun negative :: "fval \<Rightarrow> bool" where
  "negative (Fin s m e) = s"
| "negative (Inf s) = s"
| "negative NaN = False"

fun finite_val :: "fval \<Rightarrow> bool" where
  "finite_val (Fin s m e) = True"
| "finite_val _ = False"

definition valof :: "fval \<Rightarrow> rat" where
  "valof f = (if negative f then - 1 else 1) * of_nat (numer f) / of_nat (denom f)"

text \<open>
  The comparisons of Go on floating-point operands: a NaN compares false with everything,
  the two zeros are equal, an infinity is beyond every finite value.
\<close>

fun fval_lt :: "fval \<Rightarrow> fval \<Rightarrow> bool" where
  "fval_lt NaN _ = False"
| "fval_lt _ NaN = False"
| "fval_lt (Inf s) (Inf t) = (s \<and> \<not> t)"
| "fval_lt (Inf s) (Fin t m e) = s"
| "fval_lt (Fin s m e) (Inf t) = (\<not> t)"
| "fval_lt (Fin s m e) (Fin t n d) = (valof (Fin s m e) < valof (Fin t n d))"

fun fval_eq :: "fval \<Rightarrow> fval \<Rightarrow> bool" where
  "fval_eq NaN _ = False"
| "fval_eq _ NaN = False"
| "fval_eq (Inf s) (Inf t) = (s = t)"
| "fval_eq (Inf s) (Fin t m e) = False"
| "fval_eq (Fin s m e) (Inf t) = False"
| "fval_eq (Fin s m e) (Fin t n d) = (valof (Fin s m e) = valof (Fin t n d))"

definition fval_ge :: "fval \<Rightarrow> fval \<Rightarrow> bool" where
  "fval_ge a b = (fval_lt b a \<or> fval_eq a b)"

text \<open>\<open>math.Abs\<close> clears the sign bit.\<close>

fun fval_abs :: "fval \<Rightarrow> fval" where
  "fval_abs (Fin s m e) = Fin False m e"
| "fval_abs (Inf s) = Inf False"
| "fval_abs NaN = NaN"

text \<open>
  The conversion \<open>int64(val)\<close> truncates towards zero. When the truncated value is not
  an \<open>int64\<close> (or \<open>val\<close> is an infinity or a NaN), Go leaves the result to the
  implementation: \<open>oor\<close> is that result.
\<close>

definition trunc_fval :: "fval \<Rightarrow> int" where
  "trunc_fval f = (if negative f then - 1 else 1) * int (numer f div denom f)"

definition int64_of_fval :: "int \<Rightarrow> fval \<Rightarrow> int" where
  "int64_of_fval oor f =
     (if finite_val f \<and> - (2 ^ 63) \<le> trunc_fval f \<and> trunc_fval f < 2 ^ 63
      then trunc_fval f else oor)"

text \<open>
  Rounding to the nearest, ties to even: \<open>round_div n d\<close> is the integer nearest to
  \<open>n / d\<close>.
\<close>

definition round_div :: "nat \<Rightarrow> nat \<Rightarrow> nat" where
  "round_div n d =
     (let q = n div d; r = n mod d
      in if d < 2 * r \<or> (2 * r = d \<and> odd q) then q + 1 else q)"

text \<open>The number of binary digits of a natural number.\<close>

fun bitlen_nat :: "nat \<Rightarrow> nat" where
  "bitlen_nat n = (if n = 0 then 0 else Suc (bitlen_nat (n div 2)))"

declare bitlen_nat.simps [simp del]

text \<open>
  The conversion \<open>float64(i)\<close> of an integer, and the reading of a decimal integer
  literal into a \<open>float64\<close> by \<open>strconv.ParseFloat\<close>: the nearest value with a
  53-bit significand, ties to even, as its bit pattern. The significand \<open>m\<close> is
  normalised to 53 bits; rounding can carry it to \<open>2\<^sup>5\<^sup>3\<close>, which is renormalised.
  (An \<open>int64\<close> is far below the overflow threshold of the format.)
\<close>

definition float64_of_int :: "int \<Rightarrow> float64" where
  "float64_of_int i =
     (let a = nat \<bar>i\<bar>;
          l = bitlen_nat a;
          m = (if l \<le> 53 then a * 2 ^ (53 - l) else round_div a (2 ^ (l - 53)));
          m' = (if m = 2 ^ 53 then 2 ^ 52 else m);
          l' = (if m = 2 ^ 53 then l + 1 else l);
          sgn = (if i < 0 then 2 ^ 63 else 0)
      in if a = 0 then 0
         else word_of_nat (sgn + (l' + 1022) * 2 ^ 52 + (m' - 2 ^ 52)))"

subsection \<open>Package fmt: the verb \<open>%.Nf\<close>\<close>

definition pad_left :: "nat \<Rightarrow> string \<Rightarrow> string" where
  "pad_left n s = replicate (n - length s) (CHR ''0'') @ s"

text \<open>
  \<open>fmt.Sprintf("%.*f", prec, val)\<close>: the exact binary value is rounded to \<open>prec\<close>
  decimals, ties to even (\<open>strconv\<close> converts exactly); the sign is the sign bit, also
  when the digits are all zero; an infinity prints with its sign and a NaN as \<open>NaN\<close>.
\<close>

definition fmt_f :: "nat \<Rightarrow> fval \<Rightarrow> string" where
  "fmt_f prec f =
     (case f of
        NaN \<Rightarrow> ''NaN''
      | Inf s \<Rightarrow> (if s then ''-Inf'' else ''+Inf'')
      | Fin s m e \<Rightarrow>
          (let q = round_div (numer f * 10 ^ prec) (denom f);
               ip = q div 10 ^ prec;
               fp = q mod 10 ^ prec
           in (if s then ''-'' else [])
              @ show_nat ip
              @ (if prec = 0 then [] else CHR ''.'' # pad_left prec (show_nat fp))))"

section \<open>Parameter values and their formatting\<close>

text \<open>
  A parameter map is a \<open>map[string]interface{}\<close>. The dynamic types that
  \<open>formatValue\<close> and \<open>structToMap\<close> tell apart are the constructors of
  \<open>go_value\<close>; no request type of the package has a field of a slice, map or struct
  type, so none of those reaches the map. An integer is its mathematical value together
  with its Go type (nothing here computes with it).
\<close>

datatype int_kind = KInt | KInt8 | KInt16 | KInt32 | KInt64
datatype uint_kind = KUint | KUint8 | KUint16 | KUint32 | KUint64

datatype go_value =
    VNil
  | VBool bool
  | VString string
  | VFloat64 float64
  | VFloat32 float32
  | VInt int_kind int
  | VUint uint_kind nat

text \<open>
  The float64 constants of \<open>formatValue\<close>, as the bit patterns the compiler rounds
  the literals \<open>0\<close>, \<open>1e15\<close>, \<open>-1e15\<close>, \<open>1\<close> and \<open>0.0001\<close> to.
\<close>

definition f64_0 :: float64 where "f64_0 = 0"
definition f64_1e15 :: float64 where "f64_1e15 = 0x430C6BF526340000"
definition f64_neg_1e15 :: float64 where "f64_neg_1e15 = 0xC30C6BF526340000"
definition f64_1 :: float64 where "f64_1 = 0x3FF0000000000000"
definition f64_0_0001 :: float64 where "f64_0_0001 = 0x3F1A36E2EB1C432D"

text \<open>
  The \<open>float64\<close> arm of \<open>formatValue\<close>, on the decoded value. \<open>oor\<close> is what the
  platform's \<open>int64(val)\<close> yields when \<open>val\<close> is out of range.
\<close>

definition formatFloat_with :: "int \<Rightarrow> fval \<Rightarrow> string" where
  "formatFloat_with oor val =
     (if fval_eq val (decode64 f64_0) then ''0''
      else if fval_eq val (decode64 (float64_of_int (int64_of_fval oor val)))
              \<and> fval_lt val (decode64 f64_1e15) \<and> fval_lt (decode64 f64_neg_1e15) val
        then fmt_f 0 val
      else
        let absVal = fval_abs val;
            precision = (if fval_ge absVal (decode64 f64_1) then 8
                         else if fval_ge absVal (decode64 f64_0_0001) then 8
                         else 10);
            s = fmt_f precision val;
            s = strings_TrimRight s ''0'';
            s = strings_TrimRight s ''.''
        in s)"

text \<open>On amd64 an out-of-range conversion yields the smallest \<open>int64\<close>.\<close>

definition int64_indefinite :: int where
  "int64_indefinite = - (2 ^ 63)"

definition formatFloat :: "fval \<Rightarrow> string" where
  "formatFloat val = formatFloat_with int64_indefinite val"

text \<open>
  \<open>formatValue\<close>. The conversion \<open>float64(val)\<close> of a \<open>float32\<close> is exact, so the
  \<open>float32\<close> arm formats the number the 32-bit pattern decodes to. The default arm is
  the verb \<open>%v\<close>, which for the remaining dynamic types prints \<open><nil>\<close>, the
  boolean, or the string itself.
\<close>

fun formatValue :: "go_value \<Rightarrow> string" where
  "formatValue (VFloat64 val) = formatFloat (decode64 val)"
| "formatValue (VFloat32 val) = formatFloat (decode32 val)"
| "formatValue (VInt k val) = show_int val"
| "formatValue (VUint k val) = show_nat val"
| "formatValue VNil = ''<nil>''"
| "formatValue (VBool b) = (if b then ''true'' else ''false'')"
| "formatValue (VString s) = s"

text \<open>
  The verb \<open>%v\<close> of \<open>fmt.Sprintf\<close>. On a floating-point operand it is
  \<open>strconv.FormatFloat(v, 'g', -1, bits)\<close>, the shortest decimal that reads back as the
  same value; the embedding takes that function as the parameter \<open>fmtG\<close>.
\<close>

fun fmt_v :: "(nat \<Rightarrow> fval \<Rightarrow> string) \<Rightarrow> go_value \<Rightarrow> string" where
  "fmt_v fmtG (VFloat64 val) = fmtG 64 (decode64 val)"
| "fmt_v fmtG (VFloat32 val) = fmtG 32 (decode32 val)"
| "fmt_v fmtG (VInt k val) = show_int val"
| "fmt_v fmtG (VUint k val) = show_nat val"
| "fmt_v fmtG VNil = ''<nil>''"
| "fmt_v fmtG (VBool b) = (if b then ''true'' else ''false'')"
| "fmt_v fmtG (VString s) = s"

section \<open>The parameter canonicaliser\<close>

text \<open>
  A \<open>map[string]interface{}\<close> is the list of its entries in the order in which
  \<open>range\<close> happens to visit them; a Go map holds one entry for a key, so the keys of a
  well-formed map are distinct. \<open>params[key]\<close> is the value stored under the key and
  \<open>nil\<close> when there is none; \<open>params[key] = v\<close> replaces or adds an entry;
  \<open>delete(params, key)\<close> removes it.
\<close>

type_synonym params = "(string \<times> go_value) list"

definition map_index :: "params \<Rightarrow> string \<Rightarrow> go_value" where
  "map_index m key = (case map_of m key of Some v \<Rightarrow> v | None \<Rightarrow> VNil)"

definition map_assign :: "params \<Rightarrow> string \<Rightarrow> go_value \<Rightarrow> params" where
  "map_assign m key v = AList.update key v m"

definition map_delete :: "params \<Rightarrow> string \<Rightarrow> params" where
  "map_delete m key = AList.delete key m"

text \<open>\<open>isComplexValue\<close> checks if a string value contains JSON structures.\<close>

definition isComplexValue :: "string \<Rightarrow> bool" where
  "isComplexValue value = strings_ContainsAny value ''[{''"

text \<open>\<open>containsComplexValues\<close> checks if parameters contain complex JSON values.\<close>

fun containsComplexValues :: "(nat \<Rightarrow> fval \<Rightarrow> string) \<Rightarrow> params \<Rightarrow> bool" where
  "containsComplexValues fmtG [] = False"
| "containsComplexValues fmtG ((k, v) # rest) =
     (if isComplexValue (fmt_v fmtG v) then True else containsComplexValues fmtG rest)"

text \<open>
  \<open>buildQueryString\<close>: the keys are collected and sorted, and each key contributes
  \<open>key=value\<close>, the value formatted and, when \<open>urlEncode\<close> is set and the formatted
  value is complex, query-escaped with \<open>+\<close> rewritten to \<open>%20\<close>.
\<close>

definition sorted_keys :: "params \<Rightarrow> string list" where
  "sorted_keys m = sort (map fst m)"

definition query_value :: "bool \<Rightarrow> go_value \<Rightarrow> string" where
  "query_value urlEncode v =
     (let value = formatValue v
      in if urlEncode \<and> isComplexValue value
         then strings_ReplaceAll (url_QueryEscape value) ''+'' ''%20''
         else value)"

definition query_part :: "params \<Rightarrow> bool \<Rightarrow> string \<Rightarrow> string" where
  "query_part m urlEncode key = key @ ''='' @ query_value urlEncode (map_index m key)"

definition buildQueryString :: "params \<Rightarrow> bool \<Rightarrow> string" where
  "buildQueryString m urlEncode =
     strings_Join (map (query_part m urlEncode) (sorted_keys m)) ''&''"

section \<open>The signer\<close>

subsection \<open>SHA-256 (package crypto/sha256)\<close>

text \<open>
  The hash of FIPS 180-4 on 32-bit words: \<open>+\<close> wraps modulo \<open>2\<^sup>3\<^sup>2\<close>.
\<close>

type_synonym byte = "8 word"
type_synonym w32 = "32 word"
type_synonym sha_state = "w32 \<times> w32 \<times> w32 \<times> w32 \<times> w32 \<times> w32 \<times> w32 \<times> w32"

definition sha256_K :: "w32 list" where
  "sha256_K =
    [
     0x428A2F98, 0x71374491, 0xB5C0FBCF, 0xE9B5DBA5,
     0x3956C25B, 0x59F111F1, 0x923F82A4, 0xAB1C5ED5,
     0xD807AA98, 0x12835B01, 0x243185BE, 0x550C7DC3,
     0x72BE5D74, 0x80DEB1FE, 0x9BDC06A7, 0xC19BF174,
     0xE49B69C1, 0xEFBE4786, 0x0FC19DC6, 0x240CA1CC,
     0x2DE92C6F, 0x4A7484AA, 0x5CB0A9DC, 0x76F988DA,
     0x983E5152, 0xA831C66D, 0xB00327C8, 0xBF597FC7,
     0xC6E00BF3, 0xD5A79147, 0x06CA6351, 0x14292967,
     0x27B70A85, 0x2E1B2138, 0x4D2C6DFC, 0x53380D13,
     0x650A7354, 0x766A0ABB, 0x81C2C92E, 0x92722C85,
     0xA2BFE8A1, 0xA81A664B, 0xC24B8B70, 0xC76C51A3,
     0xD192E819, 0xD6990624, 0xF40E3585, 0x106AA070,
     0x19A4C116, 0x1E376C08, 0x2748774C, 0x34B0BCB5,
     0x391C0CB3, 0x4ED8AA4A, 0x5B9CCA4F, 0x682E6FF3,
     0x748F82EE, 0x78A5636F, 0x84C87814, 0x8CC70208,
     0x90BEFFFA, 0xA4506CEB, 0xBEF9A3F7, 0xC67178F2
    ]"

definition sha256_init :: sha_state where
  "sha256_init =
    (0x6A09E667, 0xBB67AE85, 0x3C6EF372, 0xA54FF53A,
     0x510E527F, 0x9B05688C, 0x1F83D9AB, 0x5BE0CD19)"

definition Ch :: "w32 \<Rightarrow> w32 \<Rightarrow> w32 \<Rightarrow> w32" where
  "Ch x y z = (x AND y) XOR (NOT x AND z)"

definition Maj :: "w32 \<Rightarrow> w32 \<Rightarrow> w32 \<Rightarrow> w32" where
  "Maj x y z = (x AND y) XOR (x AND z) XOR (y AND z)"

definition bsig0 :: "w32 \<Rightarrow> w32" where
  "bsig0 x = word_rotr 2 x XOR word_rotr 13 x XOR word_rotr 22 x"

definition bsig1 :: "w32 \<Rightarrow> w32" where
  "bsig1 x = word_rotr 6 x XOR word_rotr 11 x XOR word_rotr 25 x"

definition ssig0 :: "w32 \<Rightarrow> w32" where
  "ssig0 x = word_rotr 7 x XOR word_rotr 18 x XOR drop_bit 3 x"

definition ssig1 :: "w32 \<Rightarrow> w32" where
  "ssig1 x = word_rotr 17 x XOR word_rotr 19 x XOR drop_bit 10 x"

text \<open>Big-endian words from bytes and back.\<close>

fun be32_of_bytes :: "byte list \<Rightarrow> w32 list" where
  "be32_of_bytes (a # b # c # d # rest) =
     (push_bit 24 (ucast a) OR push_bit 16 (ucast b) OR push_bit 8 (ucast c) OR ucast d)
       # be32_of_bytes rest"
| "be32_of_bytes _ = []"

definition bytes_of_be32 :: "w32 \<Rightarrow> byte list" where
  "bytes_of_be32 w = [ucast (drop_bit 24 w), ucast (drop_bit 16 w), ucast (drop_bit 8 w), ucast w]"

definition bytes_of_be64 :: "64 word \<Rightarrow> byte list" where
  "bytes_of_be64 w = map (\<lambda>i. ucast (drop_bit (8 * (7 - i)) w)) [0 ..< 8]"

text \<open>
  Padding: the byte \<open>0x80\<close>, zero bytes up to 56 modulo 64, and the length of the
  message in bits as a 64-bit big-endian number.
\<close>

definition sha256_pad :: "byte list \<Rightarrow> byte list" where
  "sha256_pad m =
     m @ [0x80] @ replicate ((119 - length m mod 64) mod 64) 0
       @ bytes_of_be64 (word_of_nat (8 * length m))"

text \<open>The message schedule: sixteen words of the block, extended to sixty-four.\<close>

fun schedule_extend :: "nat \<Rightarrow> w32 list \<Rightarrow> w32 list" where
  "schedule_extend 0 ws = ws"
| "schedule_extend (Suc n) ws =
     (let t = length ws
      in schedule_extend n
           (ws @ [ssig1 (ws ! (t - 2)) + ws ! (t - 7) + ssig0 (ws ! (t - 15)) + ws ! (t - 16)]))"

definition schedule :: "byte list \<Rightarrow> w32 list" where
  "schedule block = schedule_extend 48 (be32_of_bytes block)"

fun sha256_round :: "sha_state \<Rightarrow> w32 \<times> w32 \<Rightarrow> sha_state" where
  "sha256_round (a, b, c, d, e, f, g, h) (k, w) =
     (let t1 = h + bsig1 e + Ch e f g + k + w;
          t2 = bsig0 a + Maj a b c
      in (t1 + t2, a, b, c, d + t1, e, f, g))"

fun add_state :: "sha_state \<Rightarrow> sha_state \<Rightarrow> sha_state" where
  "add_state (a, b, c, d, e, f, g, h) (a', b', c', d', e', f', g', h') =
     (a + a', b + b', c + c', d + d', e + e', f + f', g + g', h + h')"

definition sha256_block :: "sha_state \<Rightarrow> byte list \<Rightarrow> sha_state" where
  "sha256_block st block = add_state st (foldl sha256_round st (zip sha256_K (schedule block)))"

function sha256_blocks :: "sha_state \<Rightarrow> byte list \<Rightarrow> sha_state" where
  "sha256_blocks st bs =
     (if length bs < 64 then st
      else sha256_blocks (sha256_block st (take 64 bs)) (drop 64 bs))"
  by pat_completeness auto
termination
  by (relation "measure (\<lambda>(st, bs). length bs)") auto

declare sha256_blocks.simps [simp del]

fun bytes_of_state :: "sha_state \<Rightarrow> byte list" where
  "bytes_of_state (a, b, c, d, e, f, g, h) =
     concat (map bytes_of_be32 [a, b, c, d, e, f, g, h])"

definition sha256 :: "byte list \<Rightarrow> byte list" where
  "sha256 m = bytes_of_state (sha256_blocks sha256_init (sha256_pad m))"

subsection \<open>HMAC (package crypto/hmac) and hexadecimal (package encoding/hex)\<close>

text \<open>
  RFC 2104 with SHA-256, whose block is 64 bytes: a longer key is hashed first, the key
  is padded with zero bytes, and the two pads are \<open>0x36\<close> and \<open>0x5c\<close>.
\<close>

definition hmac_sha256 :: "byte list \<Rightarrow> byte list \<Rightarrow> byte list" where
  "hmac_sha256 key message =
     (let k0 = (if 64 < length key then sha256 key else key);
          k = k0 @ replicate (64 - length k0) 0;
          ipad = map (\<lambda>b. b XOR 0x36) k;
          opad = map (\<lambda>b. b XOR 0x5C) k
      in sha256 (opad @ sha256 (ipad @ message)))"

definition hextable :: string where
  "hextable = ''0123456789abcdef''"

definition lowerhex :: "nat \<Rightarrow> char" where
  "lowerhex n = hextable ! (n mod 16)"

definition hex_EncodeToString :: "byte list \<Rightarrow> string" where
  "hex_EncodeToString bs = concat (map (\<lambda>b. [lowerhex (unat b div 16), lowerhex (unat b mod 16)]) bs)"

text \<open>The conversion \<open>[]byte(s)\<close>.\<close>

definition bytes_of_string :: "string \<Rightarrow> byte list" where
  "bytes_of_string s = map (\<lambda>c. of_char c) s"

text \<open>\<open>sign\<close> creates an HMAC SHA256 signature.\<close>

definition sign :: "Client \<Rightarrow> string \<Rightarrow> string" where
  "sign c message =
     hex_EncodeToString (hmac_sha256 (bytes_of_string (apiSecret c)) (bytes_of_string message))"

section \<open>Request assembly\<close>

text \<open>
  \<open>doRequest\<close> up to the request URL. \<open>timestamp\<close> is the reading of
  \<open>time.Now().UnixMilli()\<close>; a \<open>nil\<close> parameter map (\<open>None\<close>) is replaced by an
  empty one. What follows in the source (the HTTP exchange and the decoding of the
  response body) is the transport and is not part of the embedding.
\<close>

definition finalQuery ::
  "(nat \<Rightarrow> fval \<Rightarrow> string) \<Rightarrow> Client \<Rightarrow> params option \<Rightarrow> int \<Rightarrow> string" where
  "finalQuery fmtG c params timestamp =
     (let params = (case params of None \<Rightarrow> [] | Some m \<Rightarrow> m);
          params = map_assign params ''timestamp'' (VInt KInt64 timestamp);
          queryString = buildQueryString params False;
          signature = sign c queryString;
          needsEncoding = containsComplexValues fmtG params;
          queryString = (if needsEncoding then buildQueryString params True else queryString)
      in queryString @ ''&signature='' @ signature)"

definition reqURL ::
  "(nat \<Rightarrow> fval \<Rightarrow> string) \<Rightarrow> Client \<Rightarrow> string \<Rightarrow> params option \<Rightarrow> int \<Rightarrow> string" where
  "reqURL fmtG c endpoint params timestamp =
     baseURL c @ endpoint @ ''?'' @ finalQuery fmtG c params timestamp"

section \<open>From a request struct to a parameter map\<close>

subsection \<open>Package encoding/json, as far as \<open>structToMap\<close> uses it\<close>

text \<open>
  The request types of the package have fields of the types \<open>string\<close>, \<open>float64\<close>,
  \<open>int64\<close> and \<open>int\<close>, each with a JSON name and some with \<open>omitempty\<close>. An
  \<open>int64\<close> is a 64-bit word read as a signed number, and so is an \<open>int\<close> (on the
  64-bit platforms).
\<close>

datatype field_value =
    FString string
  | FFloat64 float64
  | FInt64 "64 word"
  | FInt "64 word"

record struct_field =
  json_name :: string
  omitempty :: bool
  field_val :: field_value

text \<open>
  \<open>isEmptyValue\<close> decides what \<open>omitempty\<close> leaves out. Releases of Go differ on the
  float \<open>-0\<close>: the older ones test \<open>v.Float() == 0\<close>, the newer ones \<open>v.IsZero()\<close>,
  which holds for the all-zero bit pattern only. \<open>legacy\<close> selects the older rule.
\<close>

fun isEmptyValue :: "bool \<Rightarrow> field_value \<Rightarrow> bool" where
  "isEmptyValue legacy (FString s) = (s = [])"
| "isEmptyValue legacy (FFloat64 w) =
     (if legacy then fval_eq (decode64 w) (decode64 f64_0) else w = 0)"
| "isEmptyValue legacy (FInt64 i) = (i = 0)"
| "isEmptyValue legacy (FInt i) = (i = 0)"

text \<open>
  \<open>utf8.DecodeRuneInString\<close> at a byte of \<open>0x80\<close> or more: the size of the encoded
  rune, or \<open>0\<close> where the decoder reports \<open>RuneError\<close> with size one.
\<close>

definition utf8_size :: "nat list \<Rightarrow> nat" where
  "utf8_size bs =
     (case bs of
        [] \<Rightarrow> 0
      | b0 # r \<Rightarrow>
          (let (sz, lo, hi) =
                 (if 0xC2 \<le> b0 \<and> b0 \<le> 0xDF then (2, 0x80, 0xBF)
                  else if b0 = 0xE0 then (3, 0xA0, 0xBF)
                  else if b0 = 0xED then (3, 0x80, 0x9F)
                  else if 0xE1 \<le> b0 \<and> b0 \<le> 0xEF then (3, 0x80, 0xBF)
                  else if b0 = 0xF0 then (4, 0x90, 0xBF)
                  else if 0xF1 \<le> b0 \<and> b0 \<le> 0xF3 then (4, 0x80, 0xBF)
                  else if b0 = 0xF4 then (4, 0x80, 0x8F)
                  else (0 :: nat, 0 :: nat, 0 :: nat))
           in if sz = 0 \<or> length bs < sz then 0
              else if \<not> (lo \<le> bs ! 1 \<and> bs ! 1 \<le> hi) then 0
              else if sz \<le> 2 then 2
              else if \<not> (0x80 \<le> bs ! 2 \<and> bs ! 2 \<le> 0xBF) then 0
              else if sz \<le> 3 then 3
              else if \<not> (0x80 \<le> bs ! 3 \<and> bs ! 3 \<le> 0xBF) then 0
              else 4))"

text \<open>
  A string that is marshalled and unmarshalled comes back with every byte that is not
  part of a valid UTF-8 sequence replaced by the encoding of U+FFFD.
\<close>

definition utf8_replacement :: string where
  "utf8_replacement = [char_of (0xEF :: nat), char_of (0xBF :: nat), char_of (0xBD :: nat)]"

function json_string :: "string \<Rightarrow> string" where
  "json_string s =
     (if s = [] then []
      else if (of_char (hd s) :: nat) < 0x80 then hd s # json_string (tl s)
      else if utf8_size (map of_char (take 4 s)) = 0 then utf8_replacement @ json_string (tl s)
      else take (utf8_size (map of_char (take 4 s))) s
             @ json_string (drop (utf8_size (map of_char (take 4 s))) s))"
  by pat_completeness auto
termination
  by (relation "measure length") (auto simp: neq_Nil_conv)

declare json_string.simps [simp del]

text \<open>
  One field through \<open>json.Marshal\<close> and back through \<open>json.Unmarshal\<close> into an
  \<open>interface{}\<close>: a string stays a string, every number comes back as a \<open>float64\<close>
  (a \<open>float64\<close> unchanged, an integer as the nearest \<open>float64\<close>), and a NaN or an
  infinity makes \<open>json.Marshal\<close> fail.
\<close>

fun json_value :: "field_value \<Rightarrow> error + go_value" where
  "json_value (FString s) = Inr (VString (json_string s))"
| "json_value (FFloat64 w) =
     (if finite_val (decode64 w) then Inr (VFloat64 w) else Inl UnsupportedValueError)"
| "json_value (FInt64 i) = Inr (VFloat64 (float64_of_int (sint i)))"
| "json_value (FInt i) = Inr (VFloat64 (float64_of_int (sint i)))"

text \<open>
  The struct through \<open>json.Marshal\<close> and \<open>json.Unmarshal\<close>: one entry for each field
  that \<open>omitempty\<close> does not leave out.
\<close>

fun json_roundtrip :: "bool \<Rightarrow> struct_field list \<Rightarrow> error + params" where
  "json_roundtrip legacy [] = Inr []"
| "json_roundtrip legacy (f # fs) =
     (if omitempty f \<and> isEmptyValue legacy (field_val f) then json_roundtrip legacy fs
      else case json_value (field_val f) of
             Inl err \<Rightarrow> Inl err
           | Inr v \<Rightarrow>
               (case json_roundtrip legacy fs of
                  Inl err \<Rightarrow> Inl err
                | Inr m \<Rightarrow> Inr ((json_name f, v) # m)))"

subsection \<open>\<open>structToMap\<close>\<close>

text \<open>
  The type switch of the loop that removes nil and zero values: the arms are \<open>nil\<close>,
  \<open>string\<close>, \<open>float64\<close> and \<open>int64\<close>.
\<close>

fun isZeroValue :: "go_value \<Rightarrow> bool" where
  "isZeroValue VNil = True"
| "isZeroValue (VString val) = (val = [])"
| "isZeroValue (VFloat64 val) = fval_eq (decode64 val) (decode64 f64_0)"
| "isZeroValue (VInt KInt64 val) = (val = 0)"
| "isZeroValue _ = False"

text \<open>
  The loop ranges over the entries of \<open>result\<close> and deletes the current key from
  \<open>result\<close> when its value is nil or zero.
\<close>

fun removeZeroValues :: "params \<Rightarrow> params \<Rightarrow> params" where
  "removeZeroValues [] result = result"
| "removeZeroValues ((k, v) # rest) result =
     removeZeroValues rest (if isZeroValue v then map_delete result k else result)"

definition structToMap :: "bool \<Rightarrow> struct_field list \<Rightarrow> error + params" where
  "structToMap legacy v =
     (case json_roundtrip legacy v of
        Inl err \<Rightarrow> Inl err
      | Inr result \<Rightarrow> Inr (removeZeroValues result result))"

subsection \<open>The request types\<close>

text \<open>
  The five request structs of the package, and for each the list of its fields with the
  JSON names and the \<open>omitempty\<close> options of the struct tags, which is what
  \<open>json.Marshal\<close> finds by reflection.
\<close>

definition field :: "string \<Rightarrow> bool \<Rightarrow> field_value \<Rightarrow> struct_field" where
  "field name omit v = \<lparr> json_name = name, omitempty = omit, field_val = v \<rparr>"

record PlaceOrderRequest =
  Symbol :: string
  Type :: string
  Side :: string
  PositionSide :: string
  ReduceOnly :: string
  Price :: float64
  Quantity :: float64
  StopPrice :: float64
  PriceRate :: float64
  StopLoss :: string
  TakeProfit :: string
  WorkingType :: string
  ClientOrderID :: string
  RecvWindow :: "64 word"
  TimeInForce :: string
  ClosePosition :: string
  ActivationPrice :: float64
  StopGuaranteed :: string
  PositionID :: "64 word"

definition PlaceOrderRequest_fields :: "PlaceOrderRequest \<Rightarrow> struct_field list" where
  "PlaceOrderRequest_fields req =
     [field ''symbol'' False (FString (Symbol req)),
      field ''type'' False (FString (Type req)),
      field ''side'' False (FString (Side req)),
      field ''positionSide'' True (FString (PositionSide req)),
      field ''reduceOnly'' True (FString (ReduceOnly req)),
      field ''price'' True (FFloat64 (Price req)),
      field ''quantity'' True (FFloat64 (Quantity req)),
      field ''stopPrice'' True (FFloat64 (StopPrice req)),
      field ''priceRate'' True (FFloat64 (PriceRate req)),
      field ''stopLoss'' True (FString (StopLoss req)),
      field ''takeProfit'' True (FString (TakeProfit req)),
      field ''workingType'' True (FString (WorkingType req)),
      field ''clientOrderId'' True (FString (ClientOrderID req)),
      field ''recvWindow'' True (FInt64 (RecvWindow req)),
      field ''timeInForce'' True (FString (TimeInForce req)),
      field ''closePosition'' True (FString (ClosePosition req)),
      field ''activationPrice'' True (FFloat64 (ActivationPrice req)),
      field ''stopGuaranteed'' True (FString (StopGuaranteed req)),
      field ''positionId'' True (FInt64 (PositionID req))]"

record CancelAllOrdersRequest =
  Symbol :: string
  RecvWindow :: "64 word"

definition CancelAllOrdersRequest_fields :: "CancelAllOrdersRequest \<Rightarrow> struct_field list" where
  "CancelAllOrdersRequest_fields req =
     [field ''symbol'' False (FString (CancelAllOrdersRequest.Symbol req)),
      field ''recvWindow'' True (FInt64 (CancelAllOrdersRequest.RecvWindow req))]"

record SetLeverageRequest =
  Symbol :: string
  Side :: string
  Leverage :: "64 word"

definition SetLeverageRequest_fields :: "SetLeverageRequest \<Rightarrow> struct_field list" where
  "SetLeverageRequest_fields req =
     [field ''symbol'' False (FString (SetLeverageRequest.Symbol req)),
      field ''side'' False (FString (SetLeverageRequest.Side req)),
      field ''leverage'' False (FInt (SetLeverageRequest.Leverage req))]"

record CloseAllPositionsRequest =
  Symbol :: string
  RecvWindow :: "64 word"

definition CloseAllPositionsRequest_fields ::
  "CloseAllPositionsRequest \<Rightarrow> struct_field list" where
  "CloseAllPositionsRequest_fields req =
     [field ''symbol'' False (FString (CloseAllPositionsRequest.Symbol req)),
      field ''recvWindow'' True (FInt64 (CloseAllPositionsRequest.RecvWindow req))]"

record SetMarginTypeRequest =
  Symbol :: string
  MarginType :: string
  RecvWindow :: "64 word"

definition SetMarginTypeRequest_fields :: "SetMarginTypeRequest \<Rightarrow> struct_field list" where
  "SetMarginTypeRequest_fields req =
     [field ''symbol'' False (FString (SetMarginTypeRequest.Symbol req)),
      field ''marginType'' False (FString (SetMarginTypeRequest.MarginType req)),
      field ''recvWindow'' True (FInt64 (SetMarginTypeRequest.RecvWindow req))]"

text \<open>
  \<open>structToMap\<close> takes an \<open>interface{}\<close>; the package calls it with a value of one of
  the five request types.
\<close>

datatype request =
    PlaceOrder PlaceOrderRequest
  | CancelAllOrders CancelAllOrdersRequest
  | SetLeverage SetLeverageRequest
  | CloseAllPositions CloseAllPositionsRequest
  | SetMarginType SetMarginTypeRequest

fun request_fields :: "request \<Rightarrow> struct_field list" where
  "request_fields (PlaceOrder req) = PlaceOrderRequest_fields req"
| "request_fields (CancelAllOrders req) = CancelAllOrdersRequest_fields req"
| "request_fields (SetLeverage req) = SetLeverageRequest_fields req"
| "request_fields (CloseAllPositions req) = CloseAllPositionsRequest_fields req"
| "request_fields (SetMarginType req) = SetMarginTypeRequest_fields req"

section \<open>Notions of the specification\<close>

text \<open>
  A field holds the zero value of its type: the empty string, a floating-point zero of
  either sign, the integer zero.
\<close>

fun zero_field :: "field_value \<Rightarrow> bool" where
  "zero_field (FString s) = (s = [])"
| "zero_field (FFloat64 w) = fval_eq (decode64 w) (decode64 f64_0)"
| "zero_field (FInt64 i) = (i = 0)"
| "zero_field (FInt i) = (i = 0)"

text \<open>A field that \<open>omitempty\<close> does not leave out of the JSON document.\<close>

definition kept :: "bool \<Rightarrow> struct_field \<Rightarrow> bool" where
  "kept legacy f = (\<not> (omitempty f \<and> isEmptyValue legacy (field_val f)))"

text \<open>A field that \<open>json.Marshal\<close> can encode: no NaN, no infinity.\<close>

fun encodable :: "field_value \<Rightarrow> bool" where
  "encodable (FFloat64 w) = finite_val (decode64 w)"
| "encodable _ = True"

text \<open>
  An entry of a parameter map is clean when its key holds neither \<open>=\<close> nor \<open>&\<close> and
  its formatted value holds no \<open>&\<close>.
\<close>

definition clean_entry :: "string \<times> go_value \<Rightarrow> bool" where
  "clean_entry kv =
     (CHR ''='' \<notin> set (fst kv) \<and> CHR ''&'' \<notin> set (fst kv)
      \<and> CHR ''&'' \<notin> set (formatValue (snd kv)))"


text \<open>
  The percent-encoding the specification describes for a complex value: the rules of
  \<open>url.QueryEscape\<close>, but a space is written \<open>%20\<close> and not \<open>+\<close>.
\<close>

definition percent_encode :: "string \<Rightarrow> string" where
  "percent_encode s = concat (map (\<lambda>c. if c = CHR '' '' then ''%20'' else escape_byte c) s)"

text \<open>The magnitude of a value as a rational number, and decimal numerals read back.\<close>

definition mag :: "fval \<Rightarrow> rat" where
  "mag f = of_nat (numer f) / of_nat (denom f)"

definition digits_table :: string where
  "digits_table = ''0123456789''"

definition nat_of_digits :: "string \<Rightarrow> nat" where
  "nat_of_digits s = foldl (\<lambda>a c. 10 * a + (of_char c - 48)) 0 s"

text \<open>
  The last parameter of a query string: what follows its last \<open>&\<close>. And the
  characters a formatted floating-point value can consist of.
\<close>

definition last_param :: "string \<Rightarrow> string" where
  "last_param q = rev (takeWhile (\<lambda>c. c \<noteq> CHR ''&'') (rev q))"

definition float_chars :: string where
  "float_chars = ''0123456789-.+InfNa''"

section \<open>Client construction\<close>

text \<open>
  C9. Construction with an empty API key or an empty API secret fails with the
  invalid-credentials error and yields no client; construction succeeds exactly when both
  credentials are non-empty, and the client then holds the credentials it was given.
\<close>

theorem NewClient_credentials:
  "(NewClient cfg = Inl ErrInvalidCredentials) = (APIKey cfg = [] \<or> APISecret cfg = [])
   \<and> (\<exists>c. NewClient cfg = Inr c) = (APIKey cfg \<noteq> [] \<and> APISecret cfg \<noteq> [])
   \<and> (\<forall>c. NewClient cfg = Inr c \<longrightarrow>
          apiKey c = APIKey cfg \<and> apiSecret c = APISecret cfg
          \<and> apiKey c \<noteq> [] \<and> apiSecret c \<noteq> [])
   \<and> (\<forall>e. NewClient cfg = Inl e \<longrightarrow> e = ErrInvalidCredentials)"
  by (auto simp: NewClient_def Let_def)

theorem NewClient_credentials_witness:
  "(\<exists>c. NewClient \<lparr> APIKey = ''k'', APISecret = ''s'', BaseURL = [], HTTPClient = None \<rparr>
          = Inr c \<and> apiKey c = ''k'' \<and> apiSecret c = ''s'')
   \<and> NewClient \<lparr> APIKey = [], APISecret = ''s'', BaseURL = [], HTTPClient = None \<rparr>
     = Inl ErrInvalidCredentials"
  using NewClient_credentials
    [of "\<lparr> APIKey = ''k'', APISecret = ''s'', BaseURL = [], HTTPClient = None \<rparr>"]
    NewClient_credentials
    [of "\<lparr> APIKey = [], APISecret = ''s'', BaseURL = [], HTTPClient = None \<rparr>"]
  by auto

section \<open>The signer\<close>

lemma length_bytes_of_be32: "length (bytes_of_be32 w) = 4"
  by (simp add: bytes_of_be32_def)

lemma length_bytes_of_state: "length (bytes_of_state st) = 32"
  by (cases st rule: bytes_of_state.cases) (simp add: length_bytes_of_be32)

lemma length_sha256: "length (sha256 m) = 32"
  by (simp add: sha256_def length_bytes_of_state)

lemma length_hmac_sha256: "length (hmac_sha256 key message) = 32"
  by (simp add: hmac_sha256_def Let_def length_sha256)

lemma length_hex_EncodeToString: "length (hex_EncodeToString bs) = 2 * length bs"
  by (induction bs) (simp_all add: hex_EncodeToString_def)

lemma lowerhex_in: "lowerhex n \<in> set hextable"
proof -
  have "n mod 16 < length hextable" by (simp add: hextable_def)
  then show ?thesis unfolding lowerhex_def by (rule nth_mem)
qed

lemma hex_EncodeToString_chars: "list_all (\<lambda>c. c \<in> set hextable) (hex_EncodeToString bs)"
  using lowerhex_in by (induction bs) (simp_all add: hex_EncodeToString_def)

lemma sign_chars: "list_all (\<lambda>c. c \<in> set hextable) (sign c message)"
  by (simp add: sign_def hex_EncodeToString_chars)

subsection \<open>Evaluation on numerals\<close>

text \<open>
  The bitwise operations on numerals, computed on the binary representation: the rules
  below evaluate a compression of SHA-256 on literal words by rewriting alone.
\<close>

lemma word_xor_num:
  "(numeral m :: 'a::len word) XOR numeral n
     = (case xor_num m n of None \<Rightarrow> 0 | Some q \<Rightarrow> numeral q)"
proof -
  have "(numeral m :: 'a word) XOR numeral n = word_of_nat (numeral m XOR numeral n)"
    by (simp only: of_nat_xor_eq of_nat_numeral)
  also have "\<dots> = (case xor_num m n of None \<Rightarrow> 0 | Some q \<Rightarrow> numeral q)"
    by (simp only: numeral_xor_num [where ?'a = nat]) (simp split: option.split)
  finally show ?thesis .
qed

lemma word_and_num:
  "(numeral m :: 'a::len word) AND numeral n
     = (case and_num m n of None \<Rightarrow> 0 | Some q \<Rightarrow> numeral q)"
proof -
  have "(numeral m :: 'a word) AND numeral n = word_of_nat (numeral m AND numeral n)"
    by (simp only: of_nat_and_eq of_nat_numeral)
  also have "\<dots> = (case and_num m n of None \<Rightarrow> 0 | Some q \<Rightarrow> numeral q)"
    by (simp only: numeral_and_num [where ?'a = nat]) (simp split: option.split)
  finally show ?thesis .
qed

lemma word_not_and_num:
  "NOT (numeral m :: 'a::len word) AND numeral n
     = (case and_not_num n m of None \<Rightarrow> 0 | Some q \<Rightarrow> numeral q)"
proof -
  have "NOT (numeral m :: 'a word) AND numeral n = word_of_int (NOT (numeral m) AND numeral n)"
    by (simp only: of_int_not_eq of_int_and_eq of_int_numeral)
  also have "\<dots>
      = (case and_not_num n m of None \<Rightarrow> 0 | Some q \<Rightarrow> numeral q)"
    by (simp only: int_numeral_not_and_num) (simp split: option.split)
  finally show ?thesis .
qed

lemma unat_numeral32: "unat (numeral k :: w32) = take_bit 32 (numeral k)"
  by (simp only: unsigned_numeral) simp

text \<open>Addition wraps modulo \<open>2\<^sup>3\<^sup>2\<close>.\<close>

lemma word_add32_num:
  "(numeral m :: w32) + numeral n = word_of_nat (take_bit 32 (numeral (m + n)))"
proof -
  have "(word_of_nat (take_bit 32 k) :: w32) = word_of_nat k" for k
    by (simp add: word_of_nat_eq_iff)
  from this [of "numeral (m + n)"] show ?thesis
    by (simp only: of_nat_numeral numeral_plus_numeral)
qed

text \<open>
  A rotation to the right by \<open>a\<close> puts the upper \<open>32 - a\<close> bits
  below the lower \<open>a\<close> bits.
\<close>

lemma word_rotr32_split:
  assumes "a + b = 32"
  shows "word_rotr a (x :: w32)
         = word_of_nat (drop_bit a (unat x) OR push_bit b (take_bit a (unat x)))"
proof -
  from assms have b: "b = 32 - a" by auto
  have d: "drop_bit a x = word_of_nat (drop_bit a (unat x))"
  proof -
    have "drop_bit a x = word_of_nat (unat (drop_bit a x))" by simp
    also have "unat (drop_bit a x) = drop_bit a (unat x)" by (rule unat_drop_bit_eq)
    finally show ?thesis .
  qed
  have t: "take_bit a x = word_of_nat (take_bit a (unat x))"
  proof -
    have "take_bit a x = word_of_nat (unat (take_bit a x))" by simp
    also have "unat (take_bit a x) = take_bit a (unat x)" by (rule unsigned_take_bit_eq)
    finally show ?thesis .
  qed
  have "word_rotr a x = drop_bit a x OR push_bit b (take_bit a x)"
  proof (rule bit_word_eqI)
    fix i assume "i < LENGTH(32)"
    then have i: "i < 32" by simp
    have hi: "\<not> bit x j" if "32 \<le> j" for j
      using that bit_imp_le_length [of x j] by auto
    show "bit (word_rotr a x) i = bit (drop_bit a x OR push_bit b (take_bit a x)) i"
    proof (cases "i + a < 32")
      case True
      then have "\<not> 32 - a \<le> i" by simp
      with True show ?thesis
        using i b by (simp add: bit_word_rotr_iff bit_or_iff bit_drop_bit_eq bit_push_bit_iff
            bit_take_bit_iff ac_simps)
    next
      case False
      then have m: "(i + a) mod 32 = i - b" and le: "b \<le> i" and lt: "i - b < a"
        using i b assms by (simp_all add: mod_if)
      have "\<not> bit x (a + i)" using False by (intro hi) simp
      then show ?thesis
        using i le lt m by (simp add: bit_word_rotr_iff bit_or_iff bit_drop_bit_eq bit_push_bit_iff
            bit_take_bit_iff)
    qed
  qed
  also have "\<dots> = word_of_nat (drop_bit a (unat x) OR push_bit b (take_bit a (unat x)))"
    by (simp only: d t of_nat_or_eq of_nat_push_bit)
  finally show ?thesis .
qed

lemma rotr32_numeral:
  "a + b = 32 \<Longrightarrow> word_rotr a (numeral k :: w32)
     = (let u = take_bit 32 (numeral k)
        in word_of_nat (drop_bit a u OR push_bit b (take_bit a u)))"
  by (simp only: word_rotr32_split unat_numeral32 Let_def)

lemma rotr_eval:
  "word_rotr 2 (numeral k :: w32)
     = (let u = take_bit 32 (numeral k)
        in word_of_nat (drop_bit 2 u OR push_bit 30 (take_bit 2 u)))"
  "word_rotr 13 (numeral k :: w32)
     = (let u = take_bit 32 (numeral k)
        in word_of_nat (drop_bit 13 u OR push_bit 19 (take_bit 13 u)))"
  "word_rotr 22 (numeral k :: w32)
     = (let u = take_bit 32 (numeral k)
        in word_of_nat (drop_bit 22 u OR push_bit 10 (take_bit 22 u)))"
  "word_rotr 6 (numeral k :: w32)
     = (let u = take_bit 32 (numeral k)
        in word_of_nat (drop_bit 6 u OR push_bit 26 (take_bit 6 u)))"
  "word_rotr 11 (numeral k :: w32)
     = (let u = take_bit 32 (numeral k)
        in word_of_nat (drop_bit 11 u OR push_bit 21 (take_bit 11 u)))"
  "word_rotr 25 (numeral k :: w32)
     = (let u = take_bit 32 (numeral k)
        in word_of_nat (drop_bit 25 u OR push_bit 7 (take_bit 25 u)))"
  "word_rotr 7 (numeral k :: w32)
     = (let u = take_bit 32 (numeral k)
        in word_of_nat (drop_bit 7 u OR push_bit 25 (take_bit 7 u)))"
  "word_rotr 18 (numeral k :: w32)
     = (let u = take_bit 32 (numeral k)
        in word_of_nat (drop_bit 18 u OR push_bit 14 (take_bit 18 u)))"
  "word_rotr 17 (numeral k :: w32)
     = (let u = take_bit 32 (numeral k)
        in word_of_nat (drop_bit 17 u OR push_bit 15 (take_bit 17 u)))"
  "word_rotr 19 (numeral k :: w32)
     = (let u = take_bit 32 (numeral k)
        in word_of_nat (drop_bit 19 u OR push_bit 13 (take_bit 19 u)))"
  by (rule rotr32_numeral, simp)+

lemma drop_bit32_numeral:
  "drop_bit a (numeral k :: w32) = word_of_nat (drop_bit a (take_bit 32 (numeral k)))"
proof -
  have "drop_bit a (numeral k :: w32) = word_of_nat (unat (drop_bit a (numeral k :: w32)))"
    by simp
  also have "unat (drop_bit a (numeral k :: w32)) = drop_bit a (unat (numeral k :: w32))"
    by (rule unat_drop_bit_eq)
  finally show ?thesis
    by (simp only: unat_numeral32)
qed

lemma nat_shift_eval:
  "drop_bit 0 (x :: nat) = x"
  "drop_bit (numeral l) (numeral num.One :: nat) = 0"
  "drop_bit (numeral l) (numeral (num.Bit0 k) :: nat) = drop_bit (pred_numeral l) (numeral k)"
  "drop_bit (numeral l) (numeral (num.Bit1 k) :: nat) = drop_bit (pred_numeral l) (numeral k)"
  "drop_bit n (0 :: nat) = 0"
  "push_bit 0 (x :: nat) = x"
  "push_bit (numeral l) (numeral k :: nat) = push_bit (pred_numeral l) (numeral (num.Bit0 k))"
  "push_bit n (0 :: nat) = 0"
  "take_bit (numeral l) (numeral k :: nat)
     = (case take_bit_num (numeral l) k of None \<Rightarrow> 0 | Some q \<Rightarrow> numeral q)"
  "take_bit n (0 :: nat) = 0"
  "(0 :: nat) OR x = x"
  "x OR (0 :: nat) = x"
  "numeral m OR numeral k = (numeral (or_num m k) :: nat)"
  by (simp_all add: take_bit_numeral_numeral numeral_or_num)

lemma word32_zero_eval:
  "(0 :: w32) XOR x = x" "x XOR (0 :: w32) = x"
  "(0 :: w32) AND x = 0" "x AND (0 :: w32) = 0"
  "(0 :: w32) + x = x" "x + (0 :: w32) = x"
  "word_of_nat 0 = (0 :: w32)" "word_of_nat (numeral k) = (numeral k :: w32)"
  by simp_all

lemma sigma_eval:
  "bsig0 (numeral k)
     = word_rotr 2 (numeral k) XOR word_rotr 13 (numeral k) XOR word_rotr 22 (numeral k)"
  "bsig1 (numeral k)
     = word_rotr 6 (numeral k) XOR word_rotr 11 (numeral k) XOR word_rotr 25 (numeral k)"
  "ssig0 (numeral k)
     = word_rotr 7 (numeral k) XOR word_rotr 18 (numeral k) XOR drop_bit 3 (numeral k)"
  "ssig1 (numeral k)
     = word_rotr 17 (numeral k) XOR word_rotr 19 (numeral k) XOR drop_bit 10 (numeral k)"
  "bsig0 0 = 0" "bsig1 0 = 0" "ssig0 0 = 0" "ssig1 0 = 0"
  by (simp_all add: bsig0_def bsig1_def ssig0_def ssig1_def)

lemmas w32_eval =
  sigma_eval rotr_eval drop_bit32_numeral Let_def nat_shift_eval word32_zero_eval
  word_xor_num word_and_num word_not_and_num word_add32_num
  xor_num.simps and_num.simps and_not_num.simps or_num.simps add_num_simps
  take_bit_num_simps pred_numeral_simps BitM.simps
  option.case option.map

text \<open>
  One step of the message schedule reads four words of the last sixteen and appends one.
\<close>

lemma schedule_extend_window:
  "schedule_extend (Suc n)
       (pre @ [w0, w1, w2, w3, w4, w5, w6, w7,
        w8, w9, w10, w11, w12, w13, w14, w15])
     = schedule_extend n
         ((pre @ [w0]) @
         [w1, w2, w3, w4, w5, w6, w7, w8,
          w9, w10, w11, w12, w13, w14, w15,
          ssig1 w14 + w9 + ssig0 w1 + w0])"
  by (simp add: nth_append)

lemma schedule_extend_eval:
  "schedule_extend (numeral k)
       [w0, w1, w2, w3, w4, w5, w6, w7,
        w8, w9, w10, w11, w12, w13, w14, w15]
     = schedule_extend (pred_numeral k)
         ([w0] @
         [w1, w2, w3, w4, w5, w6, w7, w8,
          w9, w10, w11, w12, w13, w14, w15,
          ssig1 w14 + w9 + ssig0 w1 + w0])"
  "schedule_extend (numeral k)
       (pre @ [w0, w1, w2, w3, w4, w5, w6, w7,
        w8, w9, w10, w11, w12, w13, w14, w15])
     = schedule_extend (pred_numeral k)
         ((pre @ [w0]) @
         [w1, w2, w3, w4, w5, w6, w7, w8,
          w9, w10, w11, w12, w13, w14, w15,
          ssig1 w14 + w9 + ssig0 w1 + w0])"
  "schedule_extend 0 ws = ws"
  using schedule_extend_window [of "pred_numeral k" "[]"]
    schedule_extend_window [of "pred_numeral k" pre]
  by (simp_all only: numeral_eq_Suc append_Nil schedule_extend.simps(1))

lemmas sha256_block_eval =
  foldl_Cons foldl_Nil zip_Cons_Cons zip_Nil append_Cons append_Nil
  sha256_round.simps add_state.simps Ch_def Maj_def sha256_K_def w32_eval

lemma bytes_of_be64_eval:
  "bytes_of_be64 w =
     [ucast (drop_bit 56 w), ucast (drop_bit 48 w), ucast (drop_bit 40 w),
      ucast (drop_bit 32 w), ucast (drop_bit 24 w), ucast (drop_bit 16 w),
      ucast (drop_bit 8 w), ucast w]"
proof -
  have "[0 ..< 8] = [0, 1, 2, 3, 4, 5, 6, 7 :: nat]"
    by (simp add: upt_rec)
  then show ?thesis
    by (simp add: bytes_of_be64_def)
qed

lemma length_64:
  "length [b0, b1, b2, b3, b4, b5, b6, b7, b8, b9, b10, b11, b12, b13, b14, b15,
           b16, b17, b18, b19, b20, b21, b22, b23, b24, b25, b26, b27, b28, b29, b30, b31,
           b32, b33, b34, b35, b36, b37, b38, b39, b40, b41, b42, b43, b44, b45, b46, b47,
           b48, b49, b50, b51, b52, b53, b54, b55, b56, b57, b58, b59, b60, b61, b62, b63]
     = 64"
  by simp

lemma sha256_blocks_eval:
  "length b = 64 \<Longrightarrow>
     sha256_blocks st (b @ rest) = sha256_blocks (sha256_block st b) rest"
  "length b = 64 \<Longrightarrow> sha256_blocks st b = sha256_block st b"
  "sha256_blocks st [] = st"
  by (simp_all add: sha256_blocks.simps [of st "b @ rest"] sha256_blocks.simps [of st b]
      sha256_blocks.simps [of _ "[]"])

lemma replicate_numeral_eval: "replicate (numeral k) x = x # replicate (pred_numeral k) x"
  by (simp add: numeral_eq_Suc)

subsection \<open>Known answers\<close>

text \<open>
  The digests that HMAC-SHA256 is known to have: for the signing scenario of the
  specification (the secret \<open>s3cr3t\<close> and the message
  \<open>symbol=BTC-USDT&timestamp=1700000000000\<close>), and for the test cases 2 and 6 of
  RFC 4231, the second of which has a key longer than a block, which is hashed first. Each
  proof follows the computation: the padded blocks, the compressions, the digests.
\<close>

lemma hmac_sha256_scenario:
  "hmac_sha256 (bytes_of_string ''s3cr3t'')
       (bytes_of_string ''symbol=BTC-USDT&timestamp=1700000000000'')
     = [0x1B, 0x6F, 0xE3, 0xBF, 0x90, 0x23, 0x57, 0x1C, 0x44, 0x0B, 0xAF, 0xE0, 0x4D, 0xFB,
        0xB5, 0xC0, 0x32, 0x53, 0x73, 0x06, 0x91, 0x7B, 0x1E, 0xDA, 0x72, 0x36, 0x54, 0xFA,
        0xE0, 0xEF, 0x1A, 0x4F]"
proof -
  let ?key = "[0x73, 0x33, 0x63, 0x72, 0x33, 0x74] :: byte list"
  let ?msg = "[0x73, 0x79, 0x6D, 0x62, 0x6F, 0x6C, 0x3D, 0x42, 0x54, 0x43, 0x2D, 0x55, 0x53,
              0x44, 0x54, 0x26, 0x74, 0x69, 0x6D, 0x65, 0x73, 0x74, 0x61, 0x6D, 0x70, 0x3D,
              0x31, 0x37, 0x30, 0x30, 0x30, 0x30, 0x30, 0x30, 0x30, 0x30, 0x30, 0x30, 0x30] :: byte list"
  let ?i1 = "[0x45, 0x05, 0x55, 0x44, 0x05, 0x42, 0x36, 0x36, 0x36, 0x36, 0x36, 0x36, 0x36,
             0x36, 0x36, 0x36, 0x36, 0x36, 0x36, 0x36, 0x36, 0x36, 0x36, 0x36, 0x36, 0x36,
             0x36, 0x36, 0x36, 0x36, 0x36, 0x36, 0x36, 0x36, 0x36, 0x36, 0x36, 0x36, 0x36,
             0x36, 0x36, 0x36, 0x36, 0x36, 0x36, 0x36, 0x36, 0x36, 0x36, 0x36, 0x36, 0x36,
             0x36, 0x36, 0x36, 0x36, 0x36, 0x36, 0x36, 0x36, 0x36, 0x36, 0x36, 0x36] :: byte list"
  let ?i2 = "[0x73, 0x79, 0x6D, 0x62, 0x6F, 0x6C, 0x3D, 0x42, 0x54, 0x43, 0x2D, 0x55, 0x53,
             0x44, 0x54, 0x26, 0x74, 0x69, 0x6D, 0x65, 0x73, 0x74, 0x61, 0x6D, 0x70, 0x3D,
             0x31, 0x37, 0x30, 0x30, 0x30, 0x30, 0x30, 0x30, 0x30, 0x30, 0x30, 0x30, 0x30,
             0x80, 0x00, 0x00, 0x00, 0x00, 0x00, 0x00, 0x00, 0x00, 0x00, 0x00, 0x00, 0x00,
             0x00, 0x00, 0x00, 0x00, 0x00, 0x00, 0x00, 0x00, 0x00, 0x00, 0x03, 0x38] :: byte list"
  let ?inner = "[0x9F, 0xAC, 0x97, 0x38, 0xF2, 0x1F, 0xF3, 0x6E, 0x8D, 0x7E, 0x6F, 0xB9,
                0xE7, 0x2E, 0x5E, 0xE7, 0x32, 0x2E, 0x9D, 0x57, 0x79, 0xB1, 0x8B, 0x1C,
                0xFA, 0x67, 0x63, 0x41, 0x99, 0x0D, 0xC8, 0x23] :: byte list"
  let ?o1 = "[0x2F, 0x6F, 0x3F, 0x2E, 0x6F, 0x28, 0x5C, 0x5C, 0x5C, 0x5C, 0x5C, 0x5C, 0x5C,
             0x5C, 0x5C, 0x5C, 0x5C, 0x5C, 0x5C, 0x5C, 0x5C, 0x5C, 0x5C, 0x5C, 0x5C, 0x5C,
             0x5C, 0x5C, 0x5C, 0x5C, 0x5C, 0x5C, 0x5C, 0x5C, 0x5C, 0x5C, 0x5C, 0x5C, 0x5C,
             0x5C, 0x5C, 0x5C, 0x5C, 0x5C, 0x5C, 0x5C, 0x5C, 0x5C, 0x5C, 0x5C, 0x5C, 0x5C,
             0x5C, 0x5C, 0x5C, 0x5C, 0x5C, 0x5C, 0x5C, 0x5C, 0x5C, 0x5C, 0x5C, 0x5C] :: byte list"
  let ?o2 = "[0x9F, 0xAC, 0x97, 0x38, 0xF2, 0x1F, 0xF3, 0x6E, 0x8D, 0x7E, 0x6F, 0xB9, 0xE7,
             0x2E, 0x5E, 0xE7, 0x32, 0x2E, 0x9D, 0x57, 0x79, 0xB1, 0x8B, 0x1C, 0xFA, 0x67,
             0x63, 0x41, 0x99, 0x0D, 0xC8, 0x23, 0x80, 0x00, 0x00, 0x00, 0x00, 0x00, 0x00,
             0x00, 0x00, 0x00, 0x00, 0x00, 0x00, 0x00, 0x00, 0x00, 0x00, 0x00, 0x00, 0x00,
             0x00, 0x00, 0x00, 0x00, 0x00, 0x00, 0x00, 0x00, 0x00, 0x00, 0x03, 0x00] :: byte list"
  have key: "bytes_of_string ''s3cr3t'' = ?key"
    by (simp add: bytes_of_string_def replicate_numeral_eval)
  have msg: "bytes_of_string ''symbol=BTC-USDT&timestamp=1700000000000'' = ?msg"
    by (simp add: bytes_of_string_def)
  have k0: "(if 64 < length ?key then sha256 ?key else ?key) = ?key"
    by simp
  have ipad: "map (\<lambda>b. b XOR 0x36) (?key @ replicate (64 - length ?key) 0) = ?i1"
    by (simp add: replicate_numeral_eval)
  have opad: "map (\<lambda>b. b XOR 0x5C) (?key @ replicate (64 - length ?key) 0) = ?o1"
    by (simp add: replicate_numeral_eval)
  have ipadded: "sha256_pad (?i1 @ ?msg) = ?i1 @ ?i2"
    by (simp add: sha256_pad_def bytes_of_be64_eval replicate_numeral_eval)
  have i1: "sha256_block sha256_init ?i1
      = (0xB9773B7E, 0xED09CD5C, 0x3CCA2F80, 0x0A65569E,
       0xD608AC4E, 0xE4C3E1B2, 0x55B00BED, 0xE738184C)"
  proof -
    have "be32_of_bytes ?i1
      = [0x45055544, 0x05423636, 0x36363636, 0x36363636, 0x36363636, 0x36363636, 0x36363636,
        0x36363636, 0x36363636, 0x36363636, 0x36363636, 0x36363636, 0x36363636, 0x36363636,
        0x36363636, 0x36363636]"
      by simp
    then show ?thesis
      unfolding sha256_block_def schedule_def sha256_init_def
      by (simp only: schedule_extend_eval w32_eval) (simp only: sha256_block_eval)
  qed
  have i2: "sha256_block (0xB9773B7E, 0xED09CD5C, 0x3CCA2F80, 0x0A65569E,
                      0xD608AC4E, 0xE4C3E1B2, 0x55B00BED, 0xE738184C) ?i2
      = (0x9FAC9738, 0xF21FF36E, 0x8D7E6FB9, 0xE72E5EE7,
       0x322E9D57, 0x79B18B1C, 0xFA676341, 0x990DC823)"
  proof -
    have "be32_of_bytes ?i2
      = [0x73796D62, 0x6F6C3D42, 0x54432D55, 0x53445426, 0x74696D65, 0x7374616D, 0x703D3137,
        0x30303030, 0x30303030, 0x30303080, 0x00000000, 0x00000000, 0x00000000, 0x00000000,
        0x00000000, 0x00000338]"
      by simp
    then show ?thesis
      unfolding sha256_block_def schedule_def sha256_init_def
      by (simp only: schedule_extend_eval w32_eval) (simp only: sha256_block_eval)
  qed
  have inner: "sha256 (?i1 @ ?msg) = ?inner"
    unfolding sha256_def ipadded
    by (simp only: sha256_blocks_eval length_64 i1 i2) (simp add: bytes_of_be32_def)
  have opadded: "sha256_pad (?o1 @ ?inner) = ?o1 @ ?o2"
    by (simp add: sha256_pad_def bytes_of_be64_eval replicate_numeral_eval)
  have o1: "sha256_block sha256_init ?o1
      = (0x1C4CE9EB, 0x086BB583, 0xFE6B972E, 0xDAE35E2F,
       0x24E88BBC, 0x912DA6A5, 0x10F4758A, 0xB7425D0F)"
  proof -
    have "be32_of_bytes ?o1
      = [0x2F6F3F2E, 0x6F285C5C, 0x5C5C5C5C, 0x5C5C5C5C, 0x5C5C5C5C, 0x5C5C5C5C, 0x5C5C5C5C,
        0x5C5C5C5C, 0x5C5C5C5C, 0x5C5C5C5C, 0x5C5C5C5C, 0x5C5C5C5C, 0x5C5C5C5C, 0x5C5C5C5C,
        0x5C5C5C5C, 0x5C5C5C5C]"
      by simp
    then show ?thesis
      unfolding sha256_block_def schedule_def sha256_init_def
      by (simp only: schedule_extend_eval w32_eval) (simp only: sha256_block_eval)
  qed
  have o2: "sha256_block (0x1C4CE9EB, 0x086BB583, 0xFE6B972E, 0xDAE35E2F,
                      0x24E88BBC, 0x912DA6A5, 0x10F4758A, 0xB7425D0F) ?o2
      = (0x1B6FE3BF, 0x9023571C, 0x440BAFE0, 0x4DFBB5C0,
       0x32537306, 0x917B1EDA, 0x723654FA, 0xE0EF1A4F)"
  proof -
    have "be32_of_bytes ?o2
      = [0x9FAC9738, 0xF21FF36E, 0x8D7E6FB9, 0xE72E5EE7, 0x322E9D57, 0x79B18B1C, 0xFA676341,
        0x990DC823, 0x80000000, 0x00000000, 0x00000000, 0x00000000, 0x00000000, 0x00000000,
        0x00000000, 0x00000300]"
      by simp
    then show ?thesis
      unfolding sha256_block_def schedule_def sha256_init_def
      by (simp only: schedule_extend_eval w32_eval) (simp only: sha256_block_eval)
  qed
  have outer: "sha256 (?o1 @ ?inner)
      = [0x1B, 0x6F, 0xE3, 0xBF, 0x90, 0x23, 0x57, 0x1C, 0x44, 0x0B, 0xAF, 0xE0, 0x4D, 0xFB,
        0xB5, 0xC0, 0x32, 0x53, 0x73, 0x06, 0x91, 0x7B, 0x1E, 0xDA, 0x72, 0x36, 0x54, 0xFA,
        0xE0, 0xEF, 0x1A, 0x4F]"
    unfolding sha256_def opadded
    by (simp only: sha256_blocks_eval length_64 o1 o2) (simp add: bytes_of_be32_def)
  show ?thesis
    unfolding key msg hmac_sha256_def Let_def k0 ipad opad inner outer ..
qed

lemma hmac_sha256_rfc4231_2:
  "hmac_sha256 (bytes_of_string ''Jefe'')
       (bytes_of_string ''what do ya want for nothing?'')
     = [0x5B, 0xDC, 0xC1, 0x46, 0xBF, 0x60, 0x75, 0x4E, 0x6A, 0x04, 0x24, 0x26, 0x08, 0x95,
        0x75, 0xC7, 0x5A, 0x00, 0x3F, 0x08, 0x9D, 0x27, 0x39, 0x83, 0x9D, 0xEC, 0x58, 0xB9,
        0x64, 0xEC, 0x38, 0x43]"
proof -
  let ?key = "[0x4A, 0x65, 0x66, 0x65] :: byte list"
  let ?msg = "[0x77, 0x68, 0x61, 0x74, 0x20, 0x64, 0x6F, 0x20, 0x79, 0x61, 0x20, 0x77, 0x61,
              0x6E, 0x74, 0x20, 0x66, 0x6F, 0x72, 0x20, 0x6E, 0x6F, 0x74, 0x68, 0x69, 0x6E,
              0x67, 0x3F] :: byte list"
  let ?i1 = "[0x7C, 0x53, 0x50, 0x53, 0x36, 0x36, 0x36, 0x36, 0x36, 0x36, 0x36, 0x36, 0x36,
             0x36, 0x36, 0x36, 0x36, 0x36, 0x36, 0x36, 0x36, 0x36, 0x36, 0x36, 0x36, 0x36,
             0x36, 0x36, 0x36, 0x36, 0x36, 0x36, 0x36, 0x36, 0x36, 0x36, 0x36, 0x36, 0x36,
             0x36, 0x36, 0x36, 0x36, 0x36, 0x36, 0x36, 0x36, 0x36, 0x36, 0x36, 0x36, 0x36,
             0x36, 0x36, 0x36, 0x36, 0x36, 0x36, 0x36, 0x36, 0x36, 0x36, 0x36, 0x36] :: byte list"
  let ?i2 = "[0x77, 0x68, 0x61, 0x74, 0x20, 0x64, 0x6F, 0x20, 0x79, 0x61, 0x20, 0x77, 0x61,
             0x6E, 0x74, 0x20, 0x66, 0x6F, 0x72, 0x20, 0x6E, 0x6F, 0x74, 0x68, 0x69, 0x6E,
             0x67, 0x3F, 0x80, 0x00, 0x00, 0x00, 0x00, 0x00, 0x00, 0x00, 0x00, 0x00, 0x00,
             0x00, 0x00, 0x00, 0x00, 0x00, 0x00, 0x00, 0x00, 0x00, 0x00, 0x00, 0x00, 0x00,
             0x00, 0x00, 0x00, 0x00, 0x00, 0x00, 0x00, 0x00, 0x00, 0x00, 0x02, 0xE0] :: byte list"
  let ?inner = "[0xA2, 0xE4, 0x85, 0x86, 0x3D, 0x27, 0xF9, 0xD8, 0x64, 0xAC, 0x8D, 0x80,
                0x24, 0x32, 0xA1, 0xED, 0x47, 0x7D, 0x8C, 0x4C, 0x6F, 0x34, 0x9D, 0x16,
                0xD4, 0xE7, 0xE9, 0x17, 0xC6, 0x29, 0xCA, 0xD7] :: byte list"
  let ?o1 = "[0x16, 0x39, 0x3A, 0x39, 0x5C, 0x5C, 0x5C, 0x5C, 0x5C, 0x5C, 0x5C, 0x5C, 0x5C,
             0x5C, 0x5C, 0x5C, 0x5C, 0x5C, 0x5C, 0x5C, 0x5C, 0x5C, 0x5C, 0x5C, 0x5C, 0x5C,
             0x5C, 0x5C, 0x5C, 0x5C, 0x5C, 0x5C, 0x5C, 0x5C, 0x5C, 0x5C, 0x5C, 0x5C, 0x5C,
             0x5C, 0x5C, 0x5C, 0x5C, 0x5C, 0x5C, 0x5C, 0x5C, 0x5C, 0x5C, 0x5C, 0x5C, 0x5C,
             0x5C, 0x5C, 0x5C, 0x5C, 0x5C, 0x5C, 0x5C, 0x5C, 0x5C, 0x5C, 0x5C, 0x5C] :: byte list"
  let ?o2 = "[0xA2, 0xE4, 0x85, 0x86, 0x3D, 0x27, 0xF9, 0xD8, 0x64, 0xAC, 0x8D, 0x80, 0x24,
             0x32, 0xA1, 0xED, 0x47, 0x7D, 0x8C, 0x4C, 0x6F, 0x34, 0x9D, 0x16, 0xD4, 0xE7,
             0xE9, 0x17, 0xC6, 0x29, 0xCA, 0xD7, 0x80, 0x00, 0x00, 0x00, 0x00, 0x00, 0x00,
             0x00, 0x00, 0x00, 0x00, 0x00, 0x00, 0x00, 0x00, 0x00, 0x00, 0x00, 0x00, 0x00,
             0x00, 0x00, 0x00, 0x00, 0x00, 0x00, 0x00, 0x00, 0x00, 0x00, 0x03, 0x00] :: byte list"
  have key: "bytes_of_string ''Jefe'' = ?key"
    by (simp add: bytes_of_string_def replicate_numeral_eval)
  have msg: "bytes_of_string ''what do ya want for nothing?'' = ?msg"
    by (simp add: bytes_of_string_def)
  have k0: "(if 64 < length ?key then sha256 ?key else ?key) = ?key"
    by simp
  have ipad: "map (\<lambda>b. b XOR 0x36) (?key @ replicate (64 - length ?key) 0) = ?i1"
    by (simp add: replicate_numeral_eval)
  have opad: "map (\<lambda>b. b XOR 0x5C) (?key @ replicate (64 - length ?key) 0) = ?o1"
    by (simp add: replicate_numeral_eval)
  have ipadded: "sha256_pad (?i1 @ ?msg) = ?i1 @ ?i2"
    by (simp add: sha256_pad_def bytes_of_be64_eval replicate_numeral_eval)
  have i1: "sha256_block sha256_init ?i1
      = (0x655DA7FA, 0xCC434B37, 0x5A1CD5CB, 0x0692EE0E,
       0xA47A23D3, 0x4C3AF449, 0xDBA21AE2, 0x78C7500C)"
  proof -
    have "be32_of_bytes ?i1
      = [0x7C535053, 0x36363636, 0x36363636, 0x36363636, 0x36363636, 0x36363636, 0x36363636,
        0x36363636, 0x36363636, 0x36363636, 0x36363636, 0x36363636, 0x36363636, 0x36363636,
        0x36363636, 0x36363636]"
      by simp
    then show ?thesis
      unfolding sha256_block_def schedule_def sha256_init_def
      by (simp only: schedule_extend_eval w32_eval) (simp only: sha256_block_eval)
  qed
  have i2: "sha256_block (0x655DA7FA, 0xCC434B37, 0x5A1CD5CB, 0x0692EE0E,
                      0xA47A23D3, 0x4C3AF449, 0xDBA21AE2, 0x78C7500C) ?i2
      = (0xA2E48586, 0x3D27F9D8, 0x64AC8D80, 0x2432A1ED,
       0x477D8C4C, 0x6F349D16, 0xD4E7E917, 0xC629CAD7)"
  proof -
    have "be32_of_bytes ?i2
      = [0x77686174, 0x20646F20, 0x79612077, 0x616E7420, 0x666F7220, 0x6E6F7468, 0x696E673F,
        0x80000000, 0x00000000, 0x00000000, 0x00000000, 0x00000000, 0x00000000, 0x00000000,
        0x00000000, 0x000002E0]"
      by simp
    then show ?thesis
      unfolding sha256_block_def schedule_def sha256_init_def
      by (simp only: schedule_extend_eval w32_eval) (simp only: sha256_block_eval)
  qed
  have inner: "sha256 (?i1 @ ?msg) = ?inner"
    unfolding sha256_def ipadded
    by (simp only: sha256_blocks_eval length_64 i1 i2) (simp add: bytes_of_be32_def)
  have opadded: "sha256_pad (?o1 @ ?inner) = ?o1 @ ?o2"
    by (simp add: sha256_pad_def bytes_of_be64_eval replicate_numeral_eval)
  have o1: "sha256_block sha256_init ?o1
      = (0x0EAFE3D5, 0x13412E6C, 0x6A6A2FEB, 0x2D375ACC,
       0x51A4FD47, 0x6DB095E8, 0x23BFA18A, 0x52F141D5)"
  proof -
    have "be32_of_bytes ?o1
      = [0x16393A39, 0x5C5C5C5C, 0x5C5C5C5C, 0x5C5C5C5C, 0x5C5C5C5C, 0x5C5C5C5C, 0x5C5C5C5C,
        0x5C5C5C5C, 0x5C5C5C5C, 0x5C5C5C5C, 0x5C5C5C5C, 0x5C5C5C5C, 0x5C5C5C5C, 0x5C5C5C5C,
        0x5C5C5C5C, 0x5C5C5C5C]"
      by simp
    then show ?thesis
      unfolding sha256_block_def schedule_def sha256_init_def
      by (simp only: schedule_extend_eval w32_eval) (simp only: sha256_block_eval)
  qed
  have o2: "sha256_block (0x0EAFE3D5, 0x13412E6C, 0x6A6A2FEB, 0x2D375ACC,
                      0x51A4FD47, 0x6DB095E8, 0x23BFA18A, 0x52F141D5) ?o2
      = (0x5BDCC146, 0xBF60754E, 0x6A042426, 0x089575C7,
       0x5A003F08, 0x9D273983, 0x9DEC58B9, 0x64EC3843)"
  proof -
    have "be32_of_bytes ?o2
      = [0xA2E48586, 0x3D27F9D8, 0x64AC8D80, 0x2432A1ED, 0x477D8C4C, 0x6F349D16, 0xD4E7E917,
        0xC629CAD7, 0x80000000, 0x00000000, 0x00000000, 0x00000000, 0x00000000, 0x00000000,
        0x00000000, 0x00000300]"
      by simp
    then show ?thesis
      unfolding sha256_block_def schedule_def sha256_init_def
      by (simp only: schedule_extend_eval w32_eval) (simp only: sha256_block_eval)
  qed
  have outer: "sha256 (?o1 @ ?inner)
      = [0x5B, 0xDC, 0xC1, 0x46, 0xBF, 0x60, 0x75, 0x4E, 0x6A, 0x04, 0x24, 0x26, 0x08, 0x95,
        0x75, 0xC7, 0x5A, 0x00, 0x3F, 0x08, 0x9D, 0x27, 0x39, 0x83, 0x9D, 0xEC, 0x58, 0xB9,
        0x64, 0xEC, 0x38, 0x43]"
    unfolding sha256_def opadded
    by (simp only: sha256_blocks_eval length_64 o1 o2) (simp add: bytes_of_be32_def)
  show ?thesis
    unfolding key msg hmac_sha256_def Let_def k0 ipad opad inner outer ..
qed

lemma hmac_sha256_rfc4231_6:
  "hmac_sha256 (bytes_of_string (replicate 131 (CHR 0xAA)))
       (bytes_of_string ''Test Using Larger Than Block-Size Key - Hash Key First'')
     = [0x60, 0xE4, 0x31, 0x59, 0x1E, 0xE0, 0xB6, 0x7F, 0x0D, 0x8A, 0x26, 0xAA, 0xCB, 0xF5,
        0xB7, 0x7F, 0x8E, 0x0B, 0xC6, 0x21, 0x37, 0x28, 0xC5, 0x14, 0x05, 0x46, 0x04, 0x0F,
        0x0E, 0xE3, 0x7F, 0x54]"
proof -
  let ?key = "[0xAA, 0xAA, 0xAA, 0xAA, 0xAA, 0xAA, 0xAA, 0xAA, 0xAA, 0xAA, 0xAA, 0xAA, 0xAA,
              0xAA, 0xAA, 0xAA, 0xAA, 0xAA, 0xAA, 0xAA, 0xAA, 0xAA, 0xAA, 0xAA, 0xAA, 0xAA,
              0xAA, 0xAA, 0xAA, 0xAA, 0xAA, 0xAA, 0xAA, 0xAA, 0xAA, 0xAA, 0xAA, 0xAA, 0xAA,
              0xAA, 0xAA, 0xAA, 0xAA, 0xAA, 0xAA, 0xAA, 0xAA, 0xAA, 0xAA, 0xAA, 0xAA, 0xAA,
              0xAA, 0xAA, 0xAA, 0xAA, 0xAA, 0xAA, 0xAA, 0xAA, 0xAA, 0xAA, 0xAA, 0xAA, 0xAA,
              0xAA, 0xAA, 0xAA, 0xAA, 0xAA, 0xAA, 0xAA, 0xAA, 0xAA, 0xAA, 0xAA, 0xAA, 0xAA,
              0xAA, 0xAA, 0xAA, 0xAA, 0xAA, 0xAA, 0xAA, 0xAA, 0xAA, 0xAA, 0xAA, 0xAA, 0xAA,
              0xAA, 0xAA, 0xAA, 0xAA, 0xAA, 0xAA, 0xAA, 0xAA, 0xAA, 0xAA, 0xAA, 0xAA, 0xAA,
              0xAA, 0xAA, 0xAA, 0xAA, 0xAA, 0xAA, 0xAA, 0xAA, 0xAA, 0xAA, 0xAA, 0xAA, 0xAA,
              0xAA, 0xAA, 0xAA, 0xAA, 0xAA, 0xAA, 0xAA, 0xAA, 0xAA, 0xAA, 0xAA, 0xAA, 0xAA,
              0xAA] :: byte list"
  let ?msg = "[0x54, 0x65, 0x73, 0x74, 0x20, 0x55, 0x73, 0x69, 0x6E, 0x67, 0x20, 0x4C, 0x61,
              0x72, 0x67, 0x65, 0x72, 0x20, 0x54, 0x68, 0x61, 0x6E, 0x20, 0x42, 0x6C, 0x6F,
              0x63, 0x6B, 0x2D, 0x53, 0x69, 0x7A, 0x65, 0x20, 0x4B, 0x65, 0x79, 0x20, 0x2D,
              0x20, 0x48, 0x61, 0x73, 0x68, 0x20, 0x4B, 0x65, 0x79, 0x20, 0x46, 0x69, 0x72,
              0x73, 0x74] :: byte list"
  let ?k1 = "[0xAA, 0xAA, 0xAA, 0xAA, 0xAA, 0xAA, 0xAA, 0xAA, 0xAA, 0xAA, 0xAA, 0xAA, 0xAA,
             0xAA, 0xAA, 0xAA, 0xAA, 0xAA, 0xAA, 0xAA, 0xAA, 0xAA, 0xAA, 0xAA, 0xAA, 0xAA,
             0xAA, 0xAA, 0xAA, 0xAA, 0xAA, 0xAA, 0xAA, 0xAA, 0xAA, 0xAA, 0xAA, 0xAA, 0xAA,
             0xAA, 0xAA, 0xAA, 0xAA, 0xAA, 0xAA, 0xAA, 0xAA, 0xAA, 0xAA, 0xAA, 0xAA, 0xAA,
             0xAA, 0xAA, 0xAA, 0xAA, 0xAA, 0xAA, 0xAA, 0xAA, 0xAA, 0xAA, 0xAA, 0xAA] :: byte list"
  let ?k2 = "[0xAA, 0xAA, 0xAA, 0xAA, 0xAA, 0xAA, 0xAA, 0xAA, 0xAA, 0xAA, 0xAA, 0xAA, 0xAA,
             0xAA, 0xAA, 0xAA, 0xAA, 0xAA, 0xAA, 0xAA, 0xAA, 0xAA, 0xAA, 0xAA, 0xAA, 0xAA,
             0xAA, 0xAA, 0xAA, 0xAA, 0xAA, 0xAA, 0xAA, 0xAA, 0xAA, 0xAA, 0xAA, 0xAA, 0xAA,
             0xAA, 0xAA, 0xAA, 0xAA, 0xAA, 0xAA, 0xAA, 0xAA, 0xAA, 0xAA, 0xAA, 0xAA, 0xAA,
             0xAA, 0xAA, 0xAA, 0xAA, 0xAA, 0xAA, 0xAA, 0xAA, 0xAA, 0xAA, 0xAA, 0xAA] :: byte list"
  let ?k3 = "[0xAA, 0xAA, 0xAA, 0x80, 0x00, 0x00, 0x00, 0x00, 0x00, 0x00, 0x00, 0x00, 0x00,
             0x00, 0x00, 0x00, 0x00, 0x00, 0x00, 0x00, 0x00, 0x00, 0x00, 0x00, 0x00, 0x00,
             0x00, 0x00, 0x00, 0x00, 0x00, 0x00, 0x00, 0x00, 0x00, 0x00, 0x00, 0x00, 0x00,
             0x00, 0x00, 0x00, 0x00, 0x00, 0x00, 0x00, 0x00, 0x00, 0x00, 0x00, 0x00, 0x00,
             0x00, 0x00, 0x00, 0x00, 0x00, 0x00, 0x00, 0x00, 0x00, 0x00, 0x04, 0x18] :: byte list"
  let ?k0 = "[0x45, 0xAD, 0x4B, 0x37, 0xC6, 0xE2, 0xFC, 0x0A, 0x2C, 0xFC, 0xC1, 0xB5, 0xDA,
             0x52, 0x41, 0x32, 0xEC, 0x70, 0x76, 0x15, 0xC2, 0xCA, 0xE1, 0xDB, 0xBC, 0x43,
             0xC9, 0x7A, 0xA5, 0x21, 0xDB, 0x81] :: byte list"
  let ?i1 = "[0x73, 0x9B, 0x7D, 0x01, 0xF0, 0xD4, 0xCA, 0x3C, 0x1A, 0xCA, 0xF7, 0x83, 0xEC,
             0x64, 0x77, 0x04, 0xDA, 0x46, 0x40, 0x23, 0xF4, 0xFC, 0xD7, 0xED, 0x8A, 0x75,
             0xFF, 0x4C, 0x93, 0x17, 0xED, 0xB7, 0x36, 0x36, 0x36, 0x36, 0x36, 0x36, 0x36,
             0x36, 0x36, 0x36, 0x36, 0x36, 0x36, 0x36, 0x36, 0x36, 0x36, 0x36, 0x36, 0x36,
             0x36, 0x36, 0x36, 0x36, 0x36, 0x36, 0x36, 0x36, 0x36, 0x36, 0x36, 0x36] :: byte list"
  let ?i2 = "[0x54, 0x65, 0x73, 0x74, 0x20, 0x55, 0x73, 0x69, 0x6E, 0x67, 0x20, 0x4C, 0x61,
             0x72, 0x67, 0x65, 0x72, 0x20, 0x54, 0x68, 0x61, 0x6E, 0x20, 0x42, 0x6C, 0x6F,
             0x63, 0x6B, 0x2D, 0x53, 0x69, 0x7A, 0x65, 0x20, 0x4B, 0x65, 0x79, 0x20, 0x2D,
             0x20, 0x48, 0x61, 0x73, 0x68, 0x20, 0x4B, 0x65, 0x79, 0x20, 0x46, 0x69, 0x72,
             0x73, 0x74, 0x80, 0x00, 0x00, 0x00, 0x00, 0x00, 0x00, 0x00, 0x03, 0xB0] :: byte list"
  let ?inner = "[0xA7, 0x30, 0x38, 0xBB, 0xCC, 0x5D, 0x6F, 0x03, 0x37, 0x21, 0x55, 0x8C,
                0xA4, 0x81, 0xF3, 0x74, 0x72, 0xCA, 0x01, 0xC3, 0xB4, 0x07, 0x2F, 0x32,
                0x5C, 0x10, 0x72, 0xA1, 0x92, 0xBF, 0xE2, 0xC0] :: byte list"
  let ?o1 = "[0x19, 0xF1, 0x17, 0x6B, 0x9A, 0xBE, 0xA0, 0x56, 0x70, 0xA0, 0x9D, 0xE9, 0x86,
             0x0E, 0x1D, 0x6E, 0xB0, 0x2C, 0x2A, 0x49, 0x9E, 0x96, 0xBD, 0x87, 0xE0, 0x1F,
             0x95, 0x26, 0xF9, 0x7D, 0x87, 0xDD, 0x5C, 0x5C, 0x5C, 0x5C, 0x5C, 0x5C, 0x5C,
             0x5C, 0x5C, 0x5C, 0x5C, 0x5C, 0x5C, 0x5C, 0x5C, 0x5C, 0x5C, 0x5C, 0x5C, 0x5C,
             0x5C, 0x5C, 0x5C, 0x5C, 0x5C, 0x5C, 0x5C, 0x5C, 0x5C, 0x5C, 0x5C, 0x5C] :: byte list"
  let ?o2 = "[0xA7, 0x30, 0x38, 0xBB, 0xCC, 0x5D, 0x6F, 0x03, 0x37, 0x21, 0x55, 0x8C, 0xA4,
             0x81, 0xF3, 0x74, 0x72, 0xCA, 0x01, 0xC3, 0xB4, 0x07, 0x2F, 0x32, 0x5C, 0x10,
             0x72, 0xA1, 0x92, 0xBF, 0xE2, 0xC0, 0x80, 0x00, 0x00, 0x00, 0x00, 0x00, 0x00,
             0x00, 0x00, 0x00, 0x00, 0x00, 0x00, 0x00, 0x00, 0x00, 0x00, 0x00, 0x00, 0x00,
             0x00, 0x00, 0x00, 0x00, 0x00, 0x00, 0x00, 0x00, 0x00, 0x00, 0x03, 0x00] :: byte list"
  have key: "bytes_of_string (replicate 131 (CHR 0xAA)) = ?key"
    by (simp add: bytes_of_string_def replicate_numeral_eval)
  have msg: "bytes_of_string ''Test Using Larger Than Block-Size Key - Hash Key First'' = ?msg"
    by (simp add: bytes_of_string_def)
  have kpadded: "sha256_pad ?key = ?k1 @ ?k2 @ ?k3"
    by (simp add: sha256_pad_def bytes_of_be64_eval replicate_numeral_eval)
  have k1: "sha256_block sha256_init ?k1
      = (0x54067259, 0xE9447B44, 0x4AABB550, 0x5EEACCA8,
       0x8841DC0A, 0x73F58386, 0x7EAD1F86, 0x6E71340E)"
  proof -
    have "be32_of_bytes ?k1
      = [0xAAAAAAAA, 0xAAAAAAAA, 0xAAAAAAAA, 0xAAAAAAAA, 0xAAAAAAAA, 0xAAAAAAAA, 0xAAAAAAAA,
        0xAAAAAAAA, 0xAAAAAAAA, 0xAAAAAAAA, 0xAAAAAAAA, 0xAAAAAAAA, 0xAAAAAAAA, 0xAAAAAAAA,
        0xAAAAAAAA, 0xAAAAAAAA]"
      by simp
    then show ?thesis
      unfolding sha256_block_def schedule_def sha256_init_def
      by (simp only: schedule_extend_eval w32_eval) (simp only: sha256_block_eval)
  qed
  have k2: "sha256_block (0x54067259, 0xE9447B44, 0x4AABB550, 0x5EEACCA8,
                      0x8841DC0A, 0x73F58386, 0x7EAD1F86, 0x6E71340E) ?k2
      = (0xA554E894, 0x745FB813, 0xE7B7DF05, 0x53115AC7,
       0x0ED7242B, 0x5DBC9B48, 0xC503ECB8, 0x46EA4F12)"
  proof -
    have "be32_of_bytes ?k2
      = [0xAAAAAAAA, 0xAAAAAAAA, 0xAAAAAAAA, 0xAAAAAAAA, 0xAAAAAAAA, 0xAAAAAAAA, 0xAAAAAAAA,
        0xAAAAAAAA, 0xAAAAAAAA, 0xAAAAAAAA, 0xAAAAAAAA, 0xAAAAAAAA, 0xAAAAAAAA, 0xAAAAAAAA,
        0xAAAAAAAA, 0xAAAAAAAA]"
      by simp
    then show ?thesis
      unfolding sha256_block_def schedule_def sha256_init_def
      by (simp only: schedule_extend_eval w32_eval) (simp only: sha256_block_eval)
  qed
  have k3: "sha256_block (0xA554E894, 0x745FB813, 0xE7B7DF05, 0x53115AC7,
                      0x0ED7242B, 0x5DBC9B48, 0xC503ECB8, 0x46EA4F12) ?k3
      = (0x45AD4B37, 0xC6E2FC0A, 0x2CFCC1B5, 0xDA524132,
       0xEC707615, 0xC2CAE1DB, 0xBC43C97A, 0xA521DB81)"
  proof -
    have "be32_of_bytes ?k3
      = [0xAAAAAA80, 0x00000000, 0x00000000, 0x00000000, 0x00000000, 0x00000000, 0x00000000,
        0x00000000, 0x00000000, 0x00000000, 0x00000000, 0x00000000, 0x00000000, 0x00000000,
        0x00000000, 0x00000418]"
      by simp
    then show ?thesis
      unfolding sha256_block_def schedule_def sha256_init_def
      by (simp only: schedule_extend_eval w32_eval) (simp only: sha256_block_eval)
  qed
  have "sha256 ?key = ?k0"
    unfolding sha256_def kpadded
    by (simp only: sha256_blocks_eval length_64 k1 k2 k3) (simp add: bytes_of_be32_def)
  then have k0: "(if 64 < length ?key then sha256 ?key else ?key) = ?k0"
    by simp
  have ipad: "map (\<lambda>b. b XOR 0x36) (?k0 @ replicate (64 - length ?k0) 0) = ?i1"
    by (simp add: replicate_numeral_eval)
  have opad: "map (\<lambda>b. b XOR 0x5C) (?k0 @ replicate (64 - length ?k0) 0) = ?o1"
    by (simp add: replicate_numeral_eval)
  have ipadded: "sha256_pad (?i1 @ ?msg) = ?i1 @ ?i2"
    by (simp add: sha256_pad_def bytes_of_be64_eval replicate_numeral_eval)
  have i1: "sha256_block sha256_init ?i1
      = (0xB490466C, 0x5A783AD8, 0x1415DCBC, 0x706F5E2F,
       0x4DC3747D, 0xA72ED8B2, 0x2996594D, 0x19B134E1)"
  proof -
    have "be32_of_bytes ?i1
      = [0x739B7D01, 0xF0D4CA3C, 0x1ACAF783, 0xEC647704, 0xDA464023, 0xF4FCD7ED, 0x8A75FF4C,
        0x9317EDB7, 0x36363636, 0x36363636, 0x36363636, 0x36363636, 0x36363636, 0x36363636,
        0x36363636, 0x36363636]"
      by simp
    then show ?thesis
      unfolding sha256_block_def schedule_def sha256_init_def
      by (simp only: schedule_extend_eval w32_eval) (simp only: sha256_block_eval)
  qed
  have i2: "sha256_block (0xB490466C, 0x5A783AD8, 0x1415DCBC, 0x706F5E2F,
                      0x4DC3747D, 0xA72ED8B2, 0x2996594D, 0x19B134E1) ?i2
      = (0xA73038BB, 0xCC5D6F03, 0x3721558C, 0xA481F374,
       0x72CA01C3, 0xB4072F32, 0x5C1072A1, 0x92BFE2C0)"
  proof -
    have "be32_of_bytes ?i2
      = [0x54657374, 0x20557369, 0x6E67204C, 0x61726765, 0x72205468, 0x616E2042, 0x6C6F636B,
        0x2D53697A, 0x65204B65, 0x79202D20, 0x48617368, 0x204B6579, 0x20466972, 0x73748000,
        0x00000000, 0x000003B0]"
      by simp
    then show ?thesis
      unfolding sha256_block_def schedule_def sha256_init_def
      by (simp only: schedule_extend_eval w32_eval) (simp only: sha256_block_eval)
  qed
  have inner: "sha256 (?i1 @ ?msg) = ?inner"
    unfolding sha256_def ipadded
    by (simp only: sha256_blocks_eval length_64 i1 i2) (simp add: bytes_of_be32_def)
  have opadded: "sha256_pad (?o1 @ ?inner) = ?o1 @ ?o2"
    by (simp add: sha256_pad_def bytes_of_be64_eval replicate_numeral_eval)
  have o1: "sha256_block sha256_init ?o1
      = (0xF330E3A1, 0xDDF2D954, 0xB3BF227E, 0xBB4BD6B5,
       0xACDAF7BF, 0x51EA5E57, 0xD1970861, 0x5C542A02)"
  proof -
    have "be32_of_bytes ?o1
      = [0x19F1176B, 0x9ABEA056, 0x70A09DE9, 0x860E1D6E, 0xB02C2A49, 0x9E96BD87, 0xE01F9526,
        0xF97D87DD, 0x5C5C5C5C, 0x5C5C5C5C, 0x5C5C5C5C, 0x5C5C5C5C, 0x5C5C5C5C, 0x5C5C5C5C,
        0x5C5C5C5C, 0x5C5C5C5C]"
      by simp
    then show ?thesis
      unfolding sha256_block_def schedule_def sha256_init_def
      by (simp only: schedule_extend_eval w32_eval) (simp only: sha256_block_eval)
  qed
  have o2: "sha256_block (0xF330E3A1, 0xDDF2D954, 0xB3BF227E, 0xBB4BD6B5,
                      0xACDAF7BF, 0x51EA5E57, 0xD1970861, 0x5C542A02) ?o2
      = (0x60E43159, 0x1EE0B67F, 0x0D8A26AA, 0xCBF5B77F,
       0x8E0BC621, 0x3728C514, 0x0546040F, 0x0EE37F54)"
  proof -
    have "be32_of_bytes ?o2
      = [0xA73038BB, 0xCC5D6F03, 0x3721558C, 0xA481F374, 0x72CA01C3, 0xB4072F32, 0x5C1072A1,
        0x92BFE2C0, 0x80000000, 0x00000000, 0x00000000, 0x00000000, 0x00000000, 0x00000000,
        0x00000000, 0x00000300]"
      by simp
    then show ?thesis
      unfolding sha256_block_def schedule_def sha256_init_def
      by (simp only: schedule_extend_eval w32_eval) (simp only: sha256_block_eval)
  qed
  have outer: "sha256 (?o1 @ ?inner)
      = [0x60, 0xE4, 0x31, 0x59, 0x1E, 0xE0, 0xB6, 0x7F, 0x0D, 0x8A, 0x26, 0xAA, 0xCB, 0xF5,
        0xB7, 0x7F, 0x8E, 0x0B, 0xC6, 0x21, 0x37, 0x28, 0xC5, 0x14, 0x05, 0x46, 0x04, 0x0F,
        0x0E, 0xE3, 0x7F, 0x54]"
    unfolding sha256_def opadded
    by (simp only: sha256_blocks_eval length_64 o1 o2) (simp add: bytes_of_be32_def)
  show ?thesis
    unfolding key msg hmac_sha256_def Let_def k0 ipad opad inner outer ..
qed

lemma sign_known_answers:
  "hex_EncodeToString (hmac_sha256 (bytes_of_string ''s3cr3t'')
       (bytes_of_string ''symbol=BTC-USDT&timestamp=1700000000000''))
     = ''1b6fe3bf9023571c440bafe04dfbb5c032537306917b1eda723654fae0ef1a4f''"
  "hex_EncodeToString (hmac_sha256 (bytes_of_string ''Jefe'')
       (bytes_of_string ''what do ya want for nothing?''))
     = ''5bdcc146bf60754e6a042426089575c75a003f089d2739839dec58b964ec3843''"
  "hex_EncodeToString (hmac_sha256 (bytes_of_string (replicate 131 (CHR 0xAA)))
       (bytes_of_string ''Test Using Larger Than Block-Size Key - Hash Key First''))
     = ''60e431591ee0b67f0d8a26aacbf5b77f8e0bc6213728c5140546040f0ee37f54''"
  by (simp_all add: hmac_sha256_scenario hmac_sha256_rfc4231_2 hmac_sha256_rfc4231_6
      hex_EncodeToString_def lowerhex_def hextable_def)

text \<open>
  C7. The signature is the lower-case hexadecimal rendering of the HMAC-SHA256 of the
  bytes of the message under the bytes of the secret: the digest has 32 bytes (256 bits),
  the signature 64 characters, all of them lower-case hexadecimal digits. It is a function
  of the secret and the message alone, defined for every pair. The function computed is
  HMAC-SHA256: it yields the digest of the signing scenario of the specification and the
  digests that RFC 4231 lists for its test cases 2 and 6.
\<close>

theorem sign_hmac_sha256_hex:
  "sign c message
     = hex_EncodeToString (hmac_sha256 (bytes_of_string (apiSecret c)) (bytes_of_string message))
   \<and> length (hmac_sha256 (bytes_of_string (apiSecret c)) (bytes_of_string message)) = 32
   \<and> length (sign c message) = 64
   \<and> list_all (\<lambda>ch. ch \<in> set hextable) (sign c message)
   \<and> sign (c\<lparr>apiKey := k, baseURL := u, httpClient := h\<rparr>) message = sign c message
   \<and> sign (c\<lparr>apiSecret := ''s3cr3t''\<rparr>) ''symbol=BTC-USDT&timestamp=1700000000000''
       = ''1b6fe3bf9023571c440bafe04dfbb5c032537306917b1eda723654fae0ef1a4f''
   \<and> sign (c\<lparr>apiSecret := ''Jefe''\<rparr>) ''what do ya want for nothing?''
       = ''5bdcc146bf60754e6a042426089575c75a003f089d2739839dec58b964ec3843''
   \<and> sign (c\<lparr>apiSecret := replicate 131 (CHR 0xAA)\<rparr>)
         ''Test Using Larger Than Block-Size Key - Hash Key First''
       = ''60e431591ee0b67f0d8a26aacbf5b77f8e0bc6213728c5140546040f0ee37f54''"
  by (simp add: sign_def length_hex_EncodeToString length_hmac_sha256 hex_EncodeToString_chars
      sign_known_answers)

section \<open>Escaping\<close>

lemma strings_ReplaceAll_Nil [simp]: "strings_ReplaceAll [] old new = []"
  by (simp add: strings_ReplaceAll.simps)

lemma strings_ReplaceAll_Cons_char:
  "strings_ReplaceAll (x # xs) [c] new =
     (if x = c then new else [x]) @ strings_ReplaceAll xs [c] new"
  by (subst strings_ReplaceAll.simps) simp

lemma strings_ReplaceAll_char:
  "strings_ReplaceAll s [c] new = concat (map (\<lambda>x. if x = c then new else [x]) s)"
  by (induction s) (simp_all add: strings_ReplaceAll_Cons_char)

lemma upperhex_in: "upperhex n \<in> set upperhex_table"
proof -
  have "n mod 16 < length upperhex_table" by (simp add: upperhex_table_def)
  then show ?thesis unfolding upperhex_def by (rule nth_mem)
qed

lemma upperhex_not_plus: "upperhex n \<noteq> CHR ''+''"
  using upperhex_in [of n] by (auto simp: upperhex_table_def)

lemma shouldEscape_plus: "shouldEscape (CHR ''+'')"
  by (simp add: shouldEscape_def)

lemma replace_escape_byte:
  "concat (map (\<lambda>x. if x = CHR ''+'' then ''%20'' else [x]) (escape_byte c))
     = (if c = CHR '' '' then ''%20'' else escape_byte c)"
proof (cases "c = CHR '' ''")
  case True
  then show ?thesis by (simp add: escape_byte_def)
next
  case False
  show ?thesis
  proof (cases "shouldEscape c")
    case True
    with False show ?thesis
      by (simp add: escape_byte_def upperhex_not_plus)
  next
    case esc: False
    then have "c \<noteq> CHR ''+''" using shouldEscape_plus by auto
    with False esc show ?thesis by (simp add: escape_byte_def)
  qed
qed

lemma replace_QueryEscape:
  "strings_ReplaceAll (url_QueryEscape s) ''+'' ''%20'' = percent_encode s"
proof -
  have "concat (map (\<lambda>x. if x = CHR ''+'' then ''%20'' else [x]) (concat (map escape_byte s)))
          = concat (map (\<lambda>c. if c = CHR '' '' then ''%20'' else escape_byte c) s)"
    by (induction s) (simp_all add: replace_escape_byte)
  then show ?thesis
    by (simp add: strings_ReplaceAll_char url_QueryEscape_def percent_encode_def)
qed

lemma query_value_percent:
  "query_value urlEncode v =
     (if urlEncode \<and> isComplexValue (formatValue v) then percent_encode (formatValue v)
      else formatValue v)"
  by (simp add: query_value_def Let_def replace_QueryEscape)

lemma escape_byte_no_plus: "c \<noteq> CHR '' '' \<Longrightarrow> CHR ''+'' \<notin> set (escape_byte c)"
proof (cases "shouldEscape c")
  case True
  assume "c \<noteq> CHR '' ''"
  with True show ?thesis
    using upperhex_not_plus [of "of_char c div 16"] upperhex_not_plus [of "of_char c mod 16"]
    by (auto simp: escape_byte_def)
next
  case False
  assume "c \<noteq> CHR '' ''"
  moreover from False have "c \<noteq> CHR ''+''" using shouldEscape_plus by auto
  ultimately show ?thesis using False by (simp add: escape_byte_def)
qed

lemma percent_encode_no_plus: "CHR ''+'' \<notin> set (percent_encode s)"
  using escape_byte_no_plus by (auto simp: percent_encode_def)

section \<open>The canonical string\<close>

lemma set_sorted_keys: "set (sorted_keys m) = fst ` set m"
  by (simp add: sorted_keys_def)

lemma map_index_mem: "key \<in> fst ` set m \<Longrightarrow> (key, map_index m key) \<in> set m"
proof -
  assume "key \<in> fst ` set m"
  then have "map_of m key \<noteq> None"
    by (simp add: map_of_eq_None_iff)
  then obtain v where "map_of m key = Some v" by auto
  then show ?thesis by (simp add: map_index_def map_of_SomeD)
qed

lemma query_part_percent:
  "query_part m urlEncode =
     (\<lambda>key. key @ ''='' @
        (if urlEncode \<and> isComplexValue (formatValue (map_index m key))
         then percent_encode (formatValue (map_index m key))
         else formatValue (map_index m key)))"
  by (rule ext) (simp add: query_part_def query_value_percent)

lemma no_complex_same:
  assumes "list_all (\<lambda>(k, v). \<not> isComplexValue (formatValue v)) m"
  shows "buildQueryString m True = buildQueryString m False"
proof -
  have part: "query_part m True key = query_part m False key"
    if "key \<in> set (sorted_keys m)" for key
  proof -
    from that have "(key, map_index m key) \<in> set m"
      by (simp add: set_sorted_keys map_index_mem)
    with assms have "\<not> isComplexValue (formatValue (map_index m key))"
      by (auto simp: list_all_iff)
    then show ?thesis by (simp add: query_part_def query_value_def)
  qed
  have "map (query_part m True) (sorted_keys m) = map (query_part m False) (sorted_keys m)"
    by (rule map_cong [OF refl]) (rule part)
  then show ?thesis by (simp only: buildQueryString_def)
qed

text \<open>
  C5. When no value of the parameter set has a formatted form that contains \<open>[\<close> or
  \<open>{\<close>, the canonical string built with \<open>urlEncode = true\<close> is the one built with
  \<open>urlEncode = false\<close>.
\<close>

theorem buildQueryString_no_complex:
  assumes "list_all (\<lambda>(k, v). \<not> isComplexValue (formatValue v)) m"
  shows "buildQueryString m True = buildQueryString m False"
  using assms by (rule no_complex_same)

theorem buildQueryString_no_complex_witness:
  "list_all (\<lambda>(k, v). \<not> isComplexValue (formatValue v))
     [(''symbol'', VString ''BTC-USDT''), (''timestamp'', VInt KInt64 1700000000000)]
   \<and> buildQueryString
        [(''symbol'', VString ''BTC-USDT''), (''timestamp'', VInt KInt64 1700000000000)] True
     = buildQueryString
        [(''symbol'', VString ''BTC-USDT''), (''timestamp'', VInt KInt64 1700000000000)] False"
proof -
  have h: "list_all (\<lambda>(k, v). \<not> isComplexValue (formatValue v))
     [(''symbol'', VString ''BTC-USDT''), (''timestamp'', VInt KInt64 1700000000000)]"
    by (simp add: isComplexValue_def strings_ContainsAny_def show_int_def show_nat.simps
        digit_char_def)
  show ?thesis using h buildQueryString_no_complex [OF h] by simp
qed

text \<open>
  C4. The two canonical strings are joined from the same sorted keys with the same
  \<open>=\<close> and \<open>&\<close>; a part differs only where the formatted value is complex, and there
  the encoded string carries the percent-encoding of the formatted value: the rules of
  \<open>url.QueryEscape\<close> with \<open>%20\<close> for a space, so the encoding holds no \<open>+\<close>.
\<close>

theorem buildQueryString_encoding:
  "buildQueryString m False
     = strings_Join (map (\<lambda>key. key @ ''='' @ formatValue (map_index m key)) (sorted_keys m)) ''&''
   \<and> buildQueryString m True
     = strings_Join
         (map (\<lambda>key. key @ ''='' @
                 (if isComplexValue (formatValue (map_index m key))
                  then percent_encode (formatValue (map_index m key))
                  else formatValue (map_index m key)))
            (sorted_keys m)) ''&''
   \<and> CHR ''+'' \<notin> set (percent_encode s)
   \<and> percent_encode (a @ '' '' @ b) = percent_encode a @ ''%20'' @ percent_encode b"
proof -
  have "percent_encode (a @ '' '' @ b) = percent_encode a @ ''%20'' @ percent_encode b"
    by (simp add: percent_encode_def)
  then show ?thesis
    using percent_encode_no_plus [of s] by (simp add: buildQueryString_def query_part_percent)
qed

theorem buildQueryString_encoding_witness:
  "buildQueryString
     [(''takeProfit'', VString ''{\"type\": \"TAKE_PROFIT\"}''), (''symbol'', VString ''BTC-USDT'')]
     True
   = ''symbol=BTC-USDT&takeProfit=%7B%22type%22%3A%20%22TAKE_PROFIT%22%7D''
   \<and> buildQueryString
       [(''takeProfit'', VString ''{\"type\": \"TAKE_PROFIT\"}''), (''symbol'', VString ''BTC-USDT'')]
       False
     = ''symbol=BTC-USDT&takeProfit={\"type\": \"TAKE_PROFIT\"}''"
proof -
  let ?m = "[(''takeProfit'', VString ''{\"type\": \"TAKE_PROFIT\"}''),
             (''symbol'', VString ''BTC-USDT'')]"
  have k: "sorted_keys ?m = [''symbol'', ''takeProfit'']"
    by (simp add: sorted_keys_def less_eq_char_def less_char_def)
  have e: "percent_encode ''{\"type\": \"TAKE_PROFIT\"}''
             = ''%7B%22type%22%3A%20%22TAKE_PROFIT%22%7D''"
    by (simp add: percent_encode_def escape_byte_def shouldEscape_def upperhex_def
        upperhex_table_def)
  note t = buildQueryString_encoding [of ?m]
  from t have "buildQueryString ?m True
      = ''symbol=BTC-USDT&takeProfit=%7B%22type%22%3A%20%22TAKE_PROFIT%22%7D''"
    unfolding k by (simp add: map_index_def isComplexValue_def strings_ContainsAny_def e)
  moreover from t have "buildQueryString ?m False
      = ''symbol=BTC-USDT&takeProfit={\"type\": \"TAKE_PROFIT\"}''"
    unfolding k by (simp add: map_index_def)
  ultimately show ?thesis by (intro conjI)
qed

section \<open>Floating-point values\<close>

lemma unat_lt_2p64: "unat (w :: 64 word) < 2 ^ 64"
  using unsigned_less [of w, where 'a = nat] by simp

lemma decode64_Fin_bounds:
  assumes "decode64 w = Fin s m e"
  shows "m < 2 ^ 53" and "- 1074 \<le> e" and "e \<le> 971"
proof -
  let ?n = "unat w"
  let ?ex = "(?n div 2 ^ 52) mod 2 ^ 11"
  let ?fr = "?n mod 2 ^ 52"
  have fr: "?fr < 2 ^ 52" by simp
  have ex: "?ex < 2048" by simp
  from assms have "?ex \<noteq> 2047"
    by (auto simp: decode64_def Let_def split: if_splits)
  with ex have ex': "?ex \<le> 2046" by linarith
  from assms have m: "m = (if ?ex = 0 then ?fr else 2 ^ 52 + ?fr)"
    and e: "e = (if ?ex = 0 then - 1074 else int ?ex - 1075)"
    by (auto simp: decode64_def Let_def split: if_splits)
  from m fr show "m < 2 ^ 53" by (auto split: if_splits)
  from e show "- 1074 \<le> e" by (auto split: if_splits)
  from e ex' show "e \<le> 971" by (auto split: if_splits)
qed

lemma decode64_pack:
  assumes m: "2 ^ 52 \<le> m" "m < 2 ^ 53" and E: "1 \<le> E" "E \<le> 2046"
  shows "decode64 (word_of_nat ((if s then 2 ^ 63 else 0) + E * 2 ^ 52 + (m - 2 ^ 52)))
           = Fin s m (int E - 1075)"
proof -
  define P :: nat where "P = 2 ^ 52"
  define fr where "fr = m - P"
  define K :: nat where "K = (if s then 2048 else 0) + E"
  define n where "n = fr + K * P"
  have P: "0 < P" by (simp add: P_def)
  have fr: "fr < P" "m = P + fr" using m by (auto simp: fr_def P_def)
  have arg: "(if s then 2 ^ 63 else 0) + E * 2 ^ 52 + (m - 2 ^ 52) = n"
    by (simp add: n_def K_def fr_def P_def algebra_simps)
  have K: "K < 4096" using E by (simp add: K_def)
  have "n < (K + 1) * P" using fr(1) by (simp add: n_def)
  also have "\<dots> \<le> 4096 * P" using K by (intro mult_right_mono) auto
  also have "\<dots> = 2 ^ 64" by (simp add: P_def)
  finally have n64: "n < 2 ^ 64" .
  have un: "unat (word_of_nat n :: 64 word) = n"
    using n64 by (simp add: unat_of_nat take_bit_nat_eq_self_iff)
  have dv: "n div P = K" using fr(1) by (simp add: n_def)
  have md: "n mod P = fr" using fr(1) by (simp add: n_def)
  have ex: "K mod 2 ^ 11 = E" using E by (auto simp: K_def)
  have sgn: "(2 ^ 63 \<le> n) = s"
  proof (cases s)
    case True
    then have "2048 * P \<le> K * P" by (intro mult_right_mono) (auto simp: K_def)
    then have "2 ^ 63 \<le> n" by (simp add: n_def P_def)
    with True show ?thesis by simp
  next
    case False
    then have "K \<le> 2046" using E by (simp add: K_def)
    then have "(K + 1) * P \<le> 2047 * P" by (intro mult_right_mono) auto
    with \<open>n < (K + 1) * P\<close> have "n < 2047 * P" by linarith
    then have "n < 2 ^ 63" by (simp add: P_def)
    with False show ?thesis by simp
  qed
  have "decode64 (word_of_nat n) = Fin s m (int E - 1075)"
    unfolding decode64_def un Let_def sgn P_def [symmetric] dv md ex
    using E fr(2) by simp
  then show ?thesis by (simp only: arg)
qed


lemma bitlen_nat_0 [simp]: "bitlen_nat 0 = 0"
  by (simp add: bitlen_nat.simps)

lemma bitlen_nat_bounds: "0 < a \<Longrightarrow> 2 ^ (bitlen_nat a - 1) \<le> a \<and> a < 2 ^ bitlen_nat a"
proof (induction a rule: bitlen_nat.induct)
  case (1 n)
  show ?case
  proof (cases "n div 2 = 0")
    case True
    with 1(2) have "n = 1" by (simp add: div_eq_0_iff) 
    then show ?thesis by (simp add: bitlen_nat.simps [of 1] bitlen_nat.simps [of "Suc 0"])
  next
    case False
    then have pos: "0 < n div 2" by simp
    with 1 have IH: "2 ^ (bitlen_nat (n div 2) - 1) \<le> n div 2" "n div 2 < 2 ^ bitlen_nat (n div 2)"
      by auto
    have bl: "bitlen_nat n = Suc (bitlen_nat (n div 2))"
      using 1(2) by (subst bitlen_nat.simps) simp
    have "0 < bitlen_nat (n div 2)" using pos by (subst bitlen_nat.simps) simp
    then have "bitlen_nat n - 1 = Suc (bitlen_nat (n div 2) - 1)" using bl by simp
    then have "2 ^ (bitlen_nat n - 1) = 2 * 2 ^ (bitlen_nat (n div 2) - 1)" by simp
    also have "\<dots> \<le> 2 * (n div 2)" using IH(1) by simp
    also have "\<dots> \<le> n" by simp
    finally have lo: "2 ^ (bitlen_nat n - 1) \<le> n" .
    have "n < 2 * (n div 2 + 1)" by presburger
    also have "\<dots> \<le> 2 * 2 ^ bitlen_nat (n div 2)" using IH(2) by simp
    finally have "n < 2 ^ bitlen_nat n" by (simp add: bl)
    with lo show ?thesis by simp
  qed
qed

lemma bitlen_nat_le: "a < 2 ^ k \<Longrightarrow> bitlen_nat a \<le> k"
proof (cases "a = 0")
  case True
  then show ?thesis by simp
next
  case False
  assume "a < 2 ^ k"
  moreover from False have "2 ^ (bitlen_nat a - 1) \<le> a" using bitlen_nat_bounds by simp
  ultimately have "(2 :: nat) ^ (bitlen_nat a - 1) < 2 ^ k" by linarith
  then have "bitlen_nat a - 1 < k" by simp
  then show ?thesis by simp
qed

lemma bitlen_nat_pos: "0 < a \<Longrightarrow> 0 < bitlen_nat a"
  by (subst bitlen_nat.simps) simp

lemma round_div_lower: "0 < d \<Longrightarrow> lo * d \<le> n \<Longrightarrow> lo \<le> round_div n d"
proof -
  assume d: "0 < d" and "lo * d \<le> n"
  then have "lo \<le> n div d" by (simp add: less_eq_div_iff_mult_less_eq)
  then show ?thesis by (simp add: round_div_def Let_def)
qed

lemma round_div_upper: "0 < d \<Longrightarrow> n < hi * d \<Longrightarrow> round_div n d \<le> hi"
proof -
  assume d: "0 < d" and "n < hi * d"
  then have "n div d < hi" by (simp add: div_less_iff_less_mult)
  then show ?thesis by (simp add: round_div_def Let_def)
qed

text \<open>The significand and the exponent that \<open>float64_of_int\<close> packs.\<close>

lemma decode64_float64_of_int:
  assumes "i \<noteq> 0" and "\<bar>i\<bar> < 2 ^ 64"
  shows "\<exists>m e. decode64 (float64_of_int i) = Fin (i < 0) m e \<and> 2 ^ 52 \<le> m"
proof -
  define a where "a = nat \<bar>i\<bar>"
  define l where "l = bitlen_nat a"
  define m where "m = (if l \<le> 53 then a * 2 ^ (53 - l) else round_div a (2 ^ (l - 53)))"
  define m' :: nat where "m' = (if m = 2 ^ 53 then 2 ^ 52 else m)"
  define l' where "l' = (if m = 2 ^ 53 then l + 1 else l)"
  have a: "0 < a" "a < 2 ^ 64" using assms by (auto simp: a_def)
  have l: "0 < l" "l \<le> 64" using a by (auto simp: l_def bitlen_nat_pos bitlen_nat_le)
  have ab: "2 ^ (l - 1) \<le> a" "a < 2 ^ l" using bitlen_nat_bounds [OF a(1)] by (auto simp: l_def)
  have m: "2 ^ 52 \<le> m \<and> m \<le> 2 ^ 53"
  proof (cases "l \<le> 53")
    case True
    have "(2 :: nat) ^ 52 = 2 ^ (l - 1) * 2 ^ (53 - l)"
      using True l(1) by (simp add: power_add [symmetric])
    also have "\<dots> \<le> a * 2 ^ (53 - l)" using ab(1) by (intro mult_right_mono) auto
    finally have lo: "2 ^ 52 \<le> a * 2 ^ (53 - l)" .
    have "a * 2 ^ (53 - l) \<le> 2 ^ l * 2 ^ (53 - l)" using ab(2) by (intro mult_right_mono) auto
    also have "\<dots> = (2 :: nat) ^ 53" using True by (simp add: power_add [symmetric])
    finally show ?thesis using lo True by (simp add: m_def)
  next
    case False
    have "52 + (l - 53) = l - 1" using False by simp
    moreover have "(2 :: nat) ^ (52 + (l - 53)) = 2 ^ 52 * 2 ^ (l - 53)"
      by (simp only: power_add)
    ultimately have "(2 :: nat) ^ 52 * 2 ^ (l - 53) = 2 ^ (l - 1)" by simp
    then have lo: "2 ^ 52 \<le> round_div a (2 ^ (l - 53))"
      using ab(1) by (intro round_div_lower) auto
    have "53 + (l - 53) = l" using False by simp
    moreover have "(2 :: nat) ^ (53 + (l - 53)) = 2 ^ 53 * 2 ^ (l - 53)"
      by (simp only: power_add)
    ultimately have "(2 :: nat) ^ 53 * 2 ^ (l - 53) = 2 ^ l" by simp
    then have "round_div a (2 ^ (l - 53)) \<le> 2 ^ 53"
      using ab(2) by (intro round_div_upper) auto
    with lo False show ?thesis by (simp add: m_def)
  qed
  then have m': "2 ^ 52 \<le> m'" "m' < 2 ^ 53" by (auto simp: m'_def)
  have E: "1 \<le> l' + 1022" "l' + 1022 \<le> 2046" using l by (auto simp: l'_def)
  have nz: "nat \<bar>i\<bar> \<noteq> 0" using assms by auto
  have "float64_of_int i
          = word_of_nat ((if i < 0 then 2 ^ 63 else 0) + (l' + 1022) * 2 ^ 52 + (m' - 2 ^ 52))"
    unfolding float64_of_int_def Let_def m'_def l'_def m_def l_def a_def
    by (simp only: nz if_False)
  then have "decode64 (float64_of_int i) = Fin (i < 0) m' (int (l' + 1022) - 1075)"
    using decode64_pack [OF m' E] by simp
  with m'(1) show ?thesis by blast
qed

lemma decode64_float64_of_int_exact:
  assumes "i \<noteq> 0" and "\<bar>i\<bar> < 2 ^ 53"
  shows "decode64 (float64_of_int i)
           = Fin (i < 0) (nat \<bar>i\<bar> * 2 ^ (53 - bitlen_nat (nat \<bar>i\<bar>)))
               (int (bitlen_nat (nat \<bar>i\<bar>)) - 53)"
proof -
  define a where "a = nat \<bar>i\<bar>"
  define l where "l = bitlen_nat a"
  define m where "m = a * 2 ^ (53 - l)"
  have a: "0 < a" "a < 2 ^ 53" using assms by (auto simp: a_def)
  have l: "0 < l" "l \<le> 53" using a by (auto simp: l_def bitlen_nat_pos bitlen_nat_le)
  have ab: "2 ^ (l - 1) \<le> a" "a < 2 ^ l" using bitlen_nat_bounds [OF a(1)] by (auto simp: l_def)
  have "(2 :: nat) ^ 52 = 2 ^ (l - 1) * 2 ^ (53 - l)"
    using l by (simp add: power_add [symmetric])
  also have "\<dots> \<le> a * 2 ^ (53 - l)" using ab(1) by (intro mult_right_mono) auto
  finally have lo: "2 ^ 52 \<le> m" by (simp add: m_def)
  have "a * 2 ^ (53 - l) < 2 ^ l * 2 ^ (53 - l)" using ab(2) by simp
  also have "\<dots> = (2 :: nat) ^ 53" using l by (simp add: power_add [symmetric])
  finally have hi: "m < 2 ^ 53" by (simp add: m_def)
  have E: "1 \<le> l + 1022" "l + 1022 \<le> 2046" using l by auto
  have "float64_of_int i
          = word_of_nat ((if i < 0 then 2 ^ 63 else 0) + (l + 1022) * 2 ^ 52 + (m - 2 ^ 52))"
    using a(1) l(2) hi
    by (simp add: float64_of_int_def Let_def a_def [symmetric] l_def [symmetric]
        m_def [symmetric])
  then have "decode64 (float64_of_int i) = Fin (i < 0) m (int (l + 1022) - 1075)"
    using decode64_pack [OF lo hi E] by simp
  then show ?thesis by (simp add: m_def l_def a_def)
qed

lemma valof_float64_of_int:
  assumes "\<bar>i\<bar> < 2 ^ 53"
  shows "finite_val (decode64 (float64_of_int i))"
    and "valof (decode64 (float64_of_int i)) = of_int i"
proof -
  have "finite_val (decode64 (float64_of_int i)) \<and> valof (decode64 (float64_of_int i)) = of_int i"
  proof (cases "i = 0")
    case True
    then show ?thesis by (simp add: float64_of_int_def decode64_def valof_def)
  next
    case False
    define l where "l = bitlen_nat (nat \<bar>i\<bar>)"
    have "l \<le> 53" unfolding l_def using assms by (intro bitlen_nat_le) auto
    then have "nat (int l - 53) = 0" "nat (- (int l - 53)) = 53 - l" by auto
    then show ?thesis
      using decode64_float64_of_int_exact [OF False assms]
      by (auto simp: valof_def l_def [symmetric])
  qed
  then show "finite_val (decode64 (float64_of_int i))"
    and "valof (decode64 (float64_of_int i)) = of_int i" by auto
qed

lemma decode64_consts:
  "decode64 f64_0 = Fin False 0 (- 1074)"
  "decode64 f64_1e15 = Fin False 8000000000000000 (- 3)"
  "decode64 f64_neg_1e15 = Fin True 8000000000000000 (- 3)"
  "decode64 f64_1 = Fin False 4503599627370496 (- 52)"
  "decode64 f64_0_0001 = Fin False 7378697629483821 (- 66)"
  by (simp_all add: decode64_def f64_0_def f64_1e15_def f64_neg_1e15_def f64_1_def f64_0_0001_def)

lemma valof_consts:
  "valof (Fin False 0 (- 1074)) = 0"
  "valof (Fin False 8000000000000000 (- 3)) = 10 ^ 15"
  "valof (Fin True 8000000000000000 (- 3)) = - (10 ^ 15)"
  "valof (Fin False 4503599627370496 (- 52)) = 1"
  "valof (Fin False 7378697629483821 (- 66)) = 7378697629483821 / 2 ^ 66"
  by (simp_all add: valof_def)

lemma denom_pos [simp]: "0 < denom f"
  by (cases f) simp_all

lemma valof_mag: "valof f = (if negative f then - mag f else mag f)"
  by (simp add: valof_def mag_def)

lemma mag_nonneg [simp]: "0 \<le> mag f"
  by (simp add: mag_def)

lemma abs_valof: "\<bar>valof f\<bar> = mag f"
  by (simp add: valof_mag)

lemma valof_abs: "valof (fval_abs (Fin s m e)) = mag (Fin s m e)"
  by (simp add: valof_def mag_def)

lemma nat_div_Ints: "0 < b \<Longrightarrow> (rat_of_nat a / rat_of_nat b \<in> \<int>) = (b dvd a)"
proof
  assume b: "0 < b" and "rat_of_nat a / rat_of_nat b \<in> \<int>"
  then obtain z :: int where z: "rat_of_nat a / rat_of_nat b = of_int z" by (auto elim: Ints_cases)
  with b have "rat_of_nat a = of_int z * rat_of_nat b" by (simp add: field_simps)
  then have "rat_of_int (int a) = rat_of_int (z * int b)" by simp
  then have "int a = z * int b" by (simp only: of_int_eq_iff)
  then have "int b dvd int a" by simp
  then show "b dvd a" by (simp only: int_dvd_int_iff)
next
  assume b: "0 < b" and "b dvd a"
  then obtain k where "a = b * k" by (auto elim: dvdE)
  with b show "rat_of_nat a / rat_of_nat b \<in> \<int>" by simp
qed

lemma mag_Ints: "(mag f \<in> \<int>) = (denom f dvd numer f)"
  by (simp add: mag_def nat_div_Ints)

lemma valof_Ints: "(valof f \<in> \<int>) = (denom f dvd numer f)"
  by (simp add: valof_mag mag_Ints)

lemma floor_mag: "rat_of_nat (numer f div denom f) \<le> mag f"
proof -
  have "numer f div denom f * denom f \<le> numer f" by simp
  then have "rat_of_nat (numer f div denom f * denom f) \<le> rat_of_nat (numer f)"
    by (simp only: of_nat_le_iff)
  then show ?thesis by (simp add: mag_def field_simps)
qed

lemma trunc_exact:
  "denom f dvd numer f \<Longrightarrow> rat_of_int (trunc_fval f) = valof f"
proof -
  assume "denom f dvd numer f"
  then obtain k where k: "numer f = denom f * k" by (auto elim: dvdE)
  then have "numer f div denom f = k" by simp
  moreover have "mag f = of_nat k" using k by (simp add: mag_def)
  ultimately show ?thesis by (simp add: trunc_fval_def valof_mag)
qed

lemma abs_trunc_le: "rat_of_int \<bar>trunc_fval f\<bar> \<le> mag f"
  using floor_mag [of f] by (simp add: trunc_fval_def abs_mult)

lemma fval_eq_Fin:
  "finite_val g \<Longrightarrow> fval_eq (Fin s m e) g = (valof (Fin s m e) = valof g)"
  by (cases g) simp_all

text \<open>The guard of the integral arm.\<close>

lemma integral_guard:
  fixes s m e oor
  defines "f \<equiv> Fin s m e"
  shows "(fval_eq f (decode64 (float64_of_int (int64_of_fval oor f)))
          \<and> fval_lt f (decode64 f64_1e15) \<and> fval_lt (decode64 f64_neg_1e15) f)
         = (valof f \<in> \<int> \<and> \<bar>valof f\<bar> < 10 ^ 15)"
proof -
  have lt: "(fval_lt f (decode64 f64_1e15) \<and> fval_lt (decode64 f64_neg_1e15) f)
              = (\<bar>valof f\<bar> < 10 ^ 15)"
    by (auto simp: f_def decode64_consts valof_consts)
  show ?thesis
  proof (cases "\<bar>valof f\<bar> < 10 ^ 15")
    case False
    with lt show ?thesis by blast
  next
    case True
    define t where "t = trunc_fval f"
    have "rat_of_int \<bar>t\<bar> < 10 ^ 15"
      using abs_trunc_le [of f] True by (simp add: t_def abs_valof)
    then have "rat_of_int \<bar>t\<bar> < rat_of_int (10 ^ 15)" by simp
    then have tb: "\<bar>t\<bar> < 10 ^ 15" by (simp only: of_int_less_iff)
    then have "- (2 ^ 63) \<le> t" "t < 2 ^ 63" "\<bar>t\<bar> < 2 ^ 53" by auto
    then have i64: "int64_of_fval oor f = t"
      by (simp add: int64_of_fval_def t_def f_def)
    have fin: "finite_val (decode64 (float64_of_int t))"
      and val: "valof (decode64 (float64_of_int t)) = of_int t"
      using valof_float64_of_int [OF \<open>\<bar>t\<bar> < 2 ^ 53\<close>] by auto
    have "fval_eq f (decode64 (float64_of_int t)) = (valof f = of_int t)"
      using fval_eq_Fin [OF fin] val by (simp add: f_def)
    also have "\<dots> = (valof f \<in> \<int>)"
    proof
      assume "valof f = of_int t"
      then show "valof f \<in> \<int>" by simp
    next
      assume "valof f \<in> \<int>"
      then have "denom f dvd numer f" by (simp add: valof_Ints)
      then show "valof f = of_int t" by (simp add: t_def trunc_exact)
    qed
    finally show ?thesis using lt True by (simp add: i64)
  qed
qed

text \<open>
  No \<open>float64\<close> lies between one ten-thousandth and the constant the compiler rounds
  \<open>0.0001\<close> to.
\<close>

lemma threshold_0_0001:
  assumes "m < 2 ^ 53"
  shows "(7378697629483821 / 2 ^ 66 \<le> mag (Fin s m e)) = (1 / 10000 \<le> mag (Fin s m e))"
proof
  assume "7378697629483821 / 2 ^ 66 \<le> mag (Fin s m e)"
  moreover have "(1 :: rat) / 10000 \<le> 7378697629483821 / 2 ^ 66" by simp
  ultimately show "1 / 10000 \<le> mag (Fin s m e)" by linarith
next
  assume ge: "1 / 10000 \<le> mag (Fin s m e)"
  show "7378697629483821 / 2 ^ 66 \<le> mag (Fin s m e)"
  proof (cases "- 66 \<le> e")
    case True
    define k where "k = m * 2 ^ nat (e + 66)"
    have "(2 :: rat) ^ nat e * 2 ^ 66 = 2 ^ nat (e + 66) * 2 ^ nat (- e)"
    proof -
      have "nat e + 66 = nat (e + 66) + nat (- e)" using True by auto
      then have "(2 :: rat) ^ (nat e + 66) = 2 ^ (nat (e + 66) + nat (- e))" by simp
      then show ?thesis by (simp only: power_add)
    qed
    then have mk: "mag (Fin s m e) = of_nat k / 2 ^ 66"
      by (simp add: mag_def k_def field_simps)
    with ge have "(2 :: rat) ^ 66 \<le> 10000 * of_nat k" by (simp add: field_simps)
    then have "rat_of_nat (2 ^ 66) \<le> rat_of_nat (10000 * k)" by simp
    then have "2 ^ 66 \<le> 10000 * k" by (simp only: of_nat_le_iff)
    then have "7378697629483821 \<le> k" by simp
    then have "rat_of_nat 7378697629483821 \<le> rat_of_nat k" by (simp only: of_nat_le_iff)
    then show ?thesis by (simp add: mk field_simps)
  next
    case False
    then have "67 \<le> nat (- e)" "nat e = 0" by auto
    then have "(2 :: nat) ^ 67 \<le> 2 ^ nat (- e)" by (intro power_increasing) auto
    then have "rat_of_nat (2 ^ 67) \<le> rat_of_nat (2 ^ nat (- e))" by (simp only: of_nat_le_iff)
    then have d: "(2 :: rat) ^ 67 \<le> 2 ^ nat (- e)" by simp
    have "rat_of_nat m < rat_of_nat (2 ^ 53)" using assms by (simp only: of_nat_less_iff)
    then have "of_nat m * (16384 :: rat) < 2 ^ 67" by simp
    with d have "of_nat m * (16384 :: rat) < 2 ^ nat (- e)" by linarith
    then have "mag (Fin s m e) < 1 / 16384"
      using \<open>nat e = 0\<close> by (simp add: mag_def field_simps)
    with ge show ?thesis by linarith
  qed
qed

section \<open>Formatting of numbers\<close>

text \<open>
  \<open>round_div\<close> yields the nearest integer, and the even one of the two at a tie: the
  rounding of \<open>strconv\<close>.
\<close>

lemma round_div_nearest:
  assumes "0 < d"
  shows "\<bar>rat_of_nat (round_div n d) - of_nat n / of_nat d\<bar> \<le> 1 / 2"
    and "\<bar>rat_of_nat (round_div n d) - of_nat n / of_nat d\<bar> = 1 / 2 \<Longrightarrow> even (round_div n d)"
proof -
  define q where "q = n div d"
  define r where "r = n mod d"
  define x where "x = rat_of_nat r / of_nat d"
  have n: "n = q * d + r" and r: "r < d" using assms by (simp_all add: q_def r_def)
  have frac: "rat_of_nat n / of_nat d = of_nat q + x"
    using assms by (simp add: n x_def add_divide_distrib)
  have rd: "round_div n d = (if d < 2 * r \<or> (2 * r = d \<and> odd q) then q + 1 else q)"
    by (simp add: round_div_def Let_def q_def r_def)
  have D: "0 < rat_of_nat d" using assms by simp
  have lt: "(d < 2 * r) = (1 / 2 < x)"
  proof -
    have "(d < 2 * r) = (rat_of_nat d < rat_of_nat (2 * r))" by (simp only: of_nat_less_iff)
    also have "\<dots> = (rat_of_nat d < 2 * rat_of_nat r)" by simp
    also have "\<dots> = (1 / 2 < x)"
      unfolding x_def using D by (auto simp: pos_less_divide_eq)
    finally show ?thesis .
  qed
  have eq: "(2 * r = d) = (x = 1 / 2)"
  proof -
    have "(2 * r = d) = (rat_of_nat (2 * r) = rat_of_nat d)" by (simp only: of_nat_eq_iff)
    also have "\<dots> = (2 * rat_of_nat r = rat_of_nat d)" by simp
    also have "\<dots> = (x = 1 / 2)"
      unfolding x_def using D by (auto simp: frac_eq_eq)
    finally show ?thesis .
  qed
  have x1: "x < 1" using r assms by (simp add: x_def)
  have x0: "0 \<le> x" by (simp add: x_def)
  consider (up) "1 / 2 < x" | (tie_up) "x = 1 / 2" "odd q" | (tie_down) "x = 1 / 2" "even q"
    | (down) "x < 1 / 2"
    by (cases "x = 1 / 2") (use less_linear in force)+
  then have "\<bar>rat_of_nat (round_div n d) - of_nat n / of_nat d\<bar> \<le> 1 / 2
     \<and> (\<bar>rat_of_nat (round_div n d) - of_nat n / of_nat d\<bar> = 1 / 2 \<longrightarrow> even (round_div n d))"
  proof cases
    case up
    then have "round_div n d = q + 1" by (simp add: rd lt)
    then have "rat_of_nat (round_div n d) - of_nat n / of_nat d = 1 - x"
      by (simp add: frac)
    with up x1 show ?thesis by simp
  next
    case tie_up
    then have "round_div n d = q + 1" by (simp add: rd lt eq)
    moreover from this have "rat_of_nat (round_div n d) - of_nat n / of_nat d = 1 - x"
      by (simp add: frac)
    ultimately show ?thesis using tie_up by simp
  next
    case tie_down
    then have "round_div n d = q" by (simp add: rd lt eq)
    moreover from this have "rat_of_nat (round_div n d) - of_nat n / of_nat d = - x"
      by (simp add: frac)
    ultimately show ?thesis using tie_down by simp
  next
    case down
    then have "round_div n d = q" by (simp add: rd lt eq)
    then have "rat_of_nat (round_div n d) - of_nat n / of_nat d = - x"
      by (simp add: frac)
    with down x0 show ?thesis by simp
  qed
  then show "\<bar>rat_of_nat (round_div n d) - of_nat n / of_nat d\<bar> \<le> 1 / 2"
    and "\<bar>rat_of_nat (round_div n d) - of_nat n / of_nat d\<bar> = 1 / 2 \<Longrightarrow> even (round_div n d)"
    by blast+
qed

lemma fval_eq_zero: "fval_eq (Fin s m e) (decode64 f64_0) = (valof (Fin s m e) = 0)"
  by (simp add: decode64_consts valof_consts)

lemma fval_ge_1:
  "fval_ge (fval_abs (Fin s m e)) (decode64 f64_1) = (1 \<le> mag (Fin s m e))"
proof -
  have "fval_ge (fval_abs (Fin s m e)) (decode64 f64_1)
          = (valof (Fin False 4503599627370496 (- 52)) \<le> valof (Fin False m e))"
    by (auto simp: fval_ge_def decode64_consts)
  also have "valof (Fin False m e) = mag (Fin s m e)" by (simp add: valof_def mag_def)
  finally show ?thesis by (simp only: valof_consts)
qed

lemma fval_ge_0_0001:
  "fval_ge (fval_abs (Fin s m e)) (decode64 f64_0_0001)
     = (7378697629483821 / 2 ^ 66 \<le> mag (Fin s m e))"
proof -
  have "fval_ge (fval_abs (Fin s m e)) (decode64 f64_0_0001)
          = (valof (Fin False 7378697629483821 (- 66)) \<le> valof (Fin False m e))"
    by (auto simp: fval_ge_def decode64_consts)
  also have "valof (Fin False m e) = mag (Fin s m e)" by (simp add: valof_def mag_def)
  finally show ?thesis by (simp only: valof_consts)
qed

lemma precision_double:
  assumes "m < 2 ^ 53"
  shows "(if fval_ge (fval_abs (Fin s m e)) (decode64 f64_1) then 8
          else if fval_ge (fval_abs (Fin s m e)) (decode64 f64_0_0001) then 8
          else 10)
         = (if 1 / 10000 \<le> \<bar>valof (Fin s m e)\<bar> then 8 else 10 :: nat)"
proof (cases "1 / 10000 \<le> mag (Fin s m e)")
  case True
  then have "7378697629483821 / 2 ^ 66 \<le> mag (Fin s m e)"
    by (simp only: threshold_0_0001 [OF assms])
  with True show ?thesis by (simp only: fval_ge_1 fval_ge_0_0001 abs_valof if_True if_cancel)
next
  case False
  then have n2: "\<not> 7378697629483821 / 2 ^ 66 \<le> mag (Fin s m e)"
    by (simp only: threshold_0_0001 [OF assms] not_False_eq_True)
  from False have n1: "\<not> 1 \<le> mag (Fin s m e)" by linarith
  from False n1 n2 show ?thesis
    by (simp only: fval_ge_1 fval_ge_0_0001 abs_valof if_False)
qed

lemma trim_Inf_NaN:
  "strings_TrimRight (strings_TrimRight ''NaN'' ''0'') ''.'' = ''NaN''"
  "strings_TrimRight (strings_TrimRight ''+Inf'' ''0'') ''.'' = ''+Inf''"
  "strings_TrimRight (strings_TrimRight ''-Inf'' ''0'') ''.'' = ''-Inf''"
  by (simp_all add: strings_TrimRight_def)

lemma formatFloat_with_NaN: "formatFloat_with oor NaN = ''NaN''"
  by (simp add: formatFloat_with_def fmt_f_def trim_Inf_NaN Let_def)

lemma formatFloat_with_Inf: "formatFloat_with oor (Inf s) = (if s then ''-Inf'' else ''+Inf'')"
proof -
  have z: "\<not> fval_eq (Inf s) (decode64 f64_0)" by (simp add: decode64_consts)
  have g: "\<not> (fval_lt (Inf s) (decode64 f64_1e15) \<and> fval_lt (decode64 f64_neg_1e15) (Inf s))"
    by (simp add: decode64_consts)
  show ?thesis
    unfolding formatFloat_with_def using z g
    by (simp add: fmt_f_def trim_Inf_NaN Let_def)
qed

lemma formatFloat_with_Fin:
  "formatFloat_with oor (Fin s m e) =
     (if valof (Fin s m e) = 0 then ''0''
      else if valof (Fin s m e) \<in> \<int> \<and> \<bar>valof (Fin s m e)\<bar> < 10 ^ 15 then fmt_f 0 (Fin s m e)
      else strings_TrimRight (strings_TrimRight
             (fmt_f (if fval_ge (fval_abs (Fin s m e)) (decode64 f64_1) then 8
                     else if fval_ge (fval_abs (Fin s m e)) (decode64 f64_0_0001) then 8
                     else 10)
                (Fin s m e)) ''0'') ''.'')"
  by (simp only: formatFloat_with_def fval_eq_zero integral_guard Let_def)

lemma formatFloat_with_indep: "formatFloat_with oor f = formatFloat f"
  by (cases f) (simp_all only: formatFloat_def formatFloat_with_Fin formatFloat_with_Inf
      formatFloat_with_NaN)

lemma fmt_f_integral:
  assumes "valof (Fin s m e) \<in> \<int>" and "valof (Fin s m e) \<noteq> 0"
  shows "fmt_f 0 (Fin s m e) = show_int \<lfloor>valof (Fin s m e)\<rfloor>"
proof -
  let ?f = "Fin s m e"
  from assms(1) have dv: "denom ?f dvd numer ?f" by (simp add: valof_Ints)
  then have r: "numer ?f mod denom ?f = 0" by simp
  define q where "q = numer ?f div denom ?f"
  have rd: "round_div (numer ?f * 10 ^ 0) (denom ?f) = q"
    using r by (simp add: round_div_def q_def)
  have v: "valof ?f = of_int (trunc_fval ?f)" using trunc_exact [OF dv] by simp
  have t: "trunc_fval ?f = (if s then - int q else int q)"
    by (simp add: trunc_fval_def q_def)
  from v assms(2) have "trunc_fval ?f \<noteq> 0" by auto
  with t have qpos: "0 < q" by (auto split: if_splits)
  have fl: "\<lfloor>valof ?f\<rfloor> = trunc_fval ?f" by (subst v) simp
  have "fmt_f 0 ?f = (if s then ''-'' else []) @ show_nat q"
    unfolding fmt_f_def fval.case Let_def rd by simp
  also have "\<dots> = show_int (trunc_fval ?f)"
    using qpos by (simp add: show_int_def t)
  finally show ?thesis by (simp add: fl)
qed

lemma formatValue_double:
  "formatValue (VFloat64 w) =
     (case decode64 w of
        NaN \<Rightarrow> ''NaN''
      | Inf s \<Rightarrow> (if s then ''-Inf'' else ''+Inf'')
      | Fin s m e \<Rightarrow>
          (if valof (Fin s m e) = 0 then ''0''
           else if valof (Fin s m e) \<in> \<int> \<and> \<bar>valof (Fin s m e)\<bar> < 10 ^ 15
             then show_int \<lfloor>valof (Fin s m e)\<rfloor>
           else strings_TrimRight (strings_TrimRight
                  (fmt_f (if 1 / 10000 \<le> \<bar>valof (Fin s m e)\<bar> then 8 else 10) (Fin s m e))
                  ''0'') ''.''))"
proof (cases "decode64 w")
  case (Fin s m e)
  then have m: "m < 2 ^ 53" by (rule decode64_Fin_bounds)
  have "formatValue (VFloat64 w) = formatFloat_with int64_indefinite (Fin s m e)"
    by (simp add: formatFloat_def Fin)
  also have "\<dots> =
     (if valof (Fin s m e) = 0 then ''0''
      else if valof (Fin s m e) \<in> \<int> \<and> \<bar>valof (Fin s m e)\<bar> < 10 ^ 15
        then show_int \<lfloor>valof (Fin s m e)\<rfloor>
      else strings_TrimRight (strings_TrimRight
             (fmt_f (if 1 / 10000 \<le> \<bar>valof (Fin s m e)\<bar> then 8 else 10) (Fin s m e))
             ''0'') ''.'')"
  proof (cases "valof (Fin s m e) \<noteq> 0 \<and> valof (Fin s m e) \<in> \<int>")
    case True
    then show ?thesis
      by (simp only: formatFloat_with_Fin precision_double [OF m]) (simp add: fmt_f_integral)
  next
    case False
    then show ?thesis
      by (simp only: formatFloat_with_Fin precision_double [OF m]) auto
  qed
  finally show ?thesis by (simp only: Fin fval.case)
next
  case (Inf s)
  then show ?thesis by (simp add: formatFloat_def formatFloat_with_Inf)
next
  case NaN
  then show ?thesis by (simp add: formatFloat_def formatFloat_with_NaN)
qed

lemma digit_char_value: "of_char (digit_char n) = 48 + n mod 10"
proof -
  have "n mod 10 = 0 \<or> n mod 10 = 1 \<or> n mod 10 = 2 \<or> n mod 10 = 3 \<or> n mod 10 = 4
      \<or> n mod 10 = 5 \<or> n mod 10 = 6 \<or> n mod 10 = 7 \<or> n mod 10 = 8 \<or> n mod 10 = 9"
    by presburger
  then show ?thesis unfolding digit_char_def by (elim disjE) simp_all
qed

lemma digit_char_in: "digit_char n \<in> set digits_table"
proof -
  have "n mod 10 < length ''0123456789''" by simp
  then show ?thesis unfolding digit_char_def digits_table_def by (rule nth_mem)
qed

lemma show_nat_digits: "list_all (\<lambda>c. c \<in> set digits_table) (show_nat n)"
  by (induction n rule: show_nat.induct) (subst show_nat.simps, simp add: digit_char_in)

lemma nat_of_digits_snoc: "nat_of_digits (s @ [c]) = 10 * nat_of_digits s + (of_char c - 48)"
  by (simp add: nat_of_digits_def)

lemma nat_of_digits_show_nat: "nat_of_digits (show_nat n) = n"
proof (induction n rule: show_nat.induct)
  case (1 n)
  show ?case
  proof (cases "n < 10")
    case True
    then show ?thesis
      by (subst show_nat.simps) (simp add: nat_of_digits_def digit_char_value)
  next
    case False
    with 1 have "nat_of_digits (show_nat (n div 10)) = n div 10" by simp
    with False show ?thesis
      by (subst show_nat.simps) (simp add: nat_of_digits_snoc digit_char_value)
  qed
qed

lemma show_nat_no_leading_zero: "0 < n \<Longrightarrow> hd (show_nat n) \<noteq> CHR ''0''"
proof (induction n rule: show_nat.induct)
  case (1 n)
  show ?case
  proof (cases "n < 10")
    case True
    have "of_char (digit_char n) = 48 + n" using True digit_char_value [of n] by simp
    with 1(2) have "(of_char (digit_char n) :: nat) \<noteq> of_char (CHR ''0'')" by simp
    then have "digit_char n \<noteq> CHR ''0''" by auto
    with True show ?thesis by (subst show_nat.simps) simp
  next
    case False
    with 1 have IH: "hd (show_nat (n div 10)) \<noteq> CHR ''0''" by simp
    have "show_nat (n div 10) \<noteq> []" by (subst show_nat.simps) simp
    with IH False show ?thesis by (subst show_nat.simps) simp
  qed
qed

lemma valof_eq_0: "(valof (Fin s m e) = 0) = (m = 0)"
  by (simp add: valof_def)

lemma abs_valof_less: "(\<bar>valof f\<bar> < of_nat k) = (numer f < k * denom f)"
proof -
  have "(mag f < of_nat k) = (rat_of_nat (numer f) < rat_of_nat (k * denom f))"
    by (simp add: mag_def field_simps)
  then show ?thesis by (simp only: abs_valof of_nat_less_iff)
qed

lemma abs_valof_ge_inverse: "0 < k \<Longrightarrow> (1 / of_nat k \<le> \<bar>valof f\<bar>) = (denom f \<le> k * numer f)"
proof -
  assume "0 < k"
  then have "(1 / of_nat k \<le> mag f) = (rat_of_nat (denom f) \<le> rat_of_nat (k * numer f))"
    by (simp add: mag_def field_simps)
  then show ?thesis by (simp only: abs_valof of_nat_le_iff)
qed

text \<open>The float arm in natural-number arithmetic, for evaluation.\<close>

lemma formatValue_double_eval:
  assumes "decode64 w = Fin s m e"
  shows "formatValue (VFloat64 w) =
     (if m = 0 then ''0''
      else if denom (Fin s m e) dvd numer (Fin s m e)
              \<and> numer (Fin s m e) < 10 ^ 15 * denom (Fin s m e)
        then fmt_f 0 (Fin s m e)
      else strings_TrimRight (strings_TrimRight
             (fmt_f (if denom (Fin s m e) \<le> 10000 * numer (Fin s m e) then 8 else 10)
                (Fin s m e)) ''0'') ''.'')"
proof -
  have a: "(\<bar>valof (Fin s m e)\<bar> < 10 ^ 15)
             = (numer (Fin s m e) < 10 ^ 15 * denom (Fin s m e))"
    using abs_valof_less [of "Fin s m e" "10 ^ 15"] by simp
  have b: "(1 / 10000 \<le> \<bar>valof (Fin s m e)\<bar>)
             = (denom (Fin s m e) \<le> 10000 * numer (Fin s m e))"
    using abs_valof_ge_inverse [of 10000 "Fin s m e"] by simp
  have c: "valof (Fin s m e) \<noteq> 0 \<Longrightarrow> valof (Fin s m e) \<in> \<int>
            \<Longrightarrow> show_int \<lfloor>valof (Fin s m e)\<rfloor> = fmt_f 0 (Fin s m e)"
    by (simp add: fmt_f_integral)
  show ?thesis
  proof (cases "valof (Fin s m e) \<noteq> 0 \<and> valof (Fin s m e) \<in> \<int>")
    case True
    then show ?thesis
      unfolding formatValue_double assms fval.case a b
      by (simp add: c valof_eq_0 valof_Ints)
  next
    case False
    then show ?thesis
      unfolding formatValue_double assms fval.case a b
      by (auto simp: valof_eq_0 valof_Ints)
  qed
qed

lemma show_nat_eval:
  "show_nat 0 = ''0''"
  "show_nat (Suc 0) = ''1''"
  "show_nat 1 = ''1''"
  "show_nat (numeral k) =
     (if (numeral k :: nat) < 10 then [digit_char (numeral k)]
      else show_nat (numeral k div 10) @ [digit_char (numeral k)])"
  by (subst show_nat.simps, simp add: digit_char_def)+

lemmas format_eval =
  fmt_f_def round_div_def pad_left_def show_nat_eval digit_char_def strings_TrimRight_def
  replicate_numeral_eval Let_def


text \<open>
  C2. A \<open>float64\<close> formats as \<open>0\<close> when it is zero; as the plain decimal numeral of
  its value when the value is an integer of magnitude below \<open>10\<^sup>1\<^sup>5\<close>; otherwise in
  fixed-point notation with 8 decimals when the magnitude is at least \<open>0.0001\<close> and with
  10 decimals when it is smaller, the trailing zeros and then a trailing point stripped.
  (An infinity or a NaN, which no request can carry, prints as \<open>fmt\<close> prints it.) An
  integer formats as its decimal digits, a \<open>-\<close> before them when it is negative: the
  digits read back as the number and do not start with a zero unless the number is zero.
\<close>

theorem formatValue_numbers:
  "formatValue (VFloat64 w) =
     (case decode64 w of
        NaN \<Rightarrow> ''NaN''
      | Inf s \<Rightarrow> (if s then ''-Inf'' else ''+Inf'')
      | Fin s m e \<Rightarrow>
          (if valof (Fin s m e) = 0 then ''0''
           else if valof (Fin s m e) \<in> \<int> \<and> \<bar>valof (Fin s m e)\<bar> < 10 ^ 15
             then show_int \<lfloor>valof (Fin s m e)\<rfloor>
           else strings_TrimRight (strings_TrimRight
                  (fmt_f (if 1 / 10000 \<le> \<bar>valof (Fin s m e)\<bar> then 8 else 10) (Fin s m e))
                  ''0'') ''.''))
   \<and> formatValue (VInt k i) = show_int i
   \<and> formatValue (VUint ku n) = show_nat n
   \<and> show_int i = (if i < 0 then CHR ''-'' # show_nat (nat (- i)) else show_nat (nat i))
   \<and> list_all (\<lambda>c. c \<in> set digits_table) (show_nat n)
   \<and> nat_of_digits (show_nat n) = n
   \<and> hd (show_nat (Suc n)) \<noteq> CHR ''0''"
  using formatValue_double [of w] show_nat_digits [of n] nat_of_digits_show_nat [of n]
    show_nat_no_leading_zero [of "Suc n"]
  by (simp add: show_int_def)

theorem formatValue_numbers_witness:
  "formatValue (VFloat64 0x3FB999999999999A) = ''0.1''
   \<and> formatValue (VInt KInt64 (- 42)) = ''-42''
   \<and> nat_of_digits (show_nat 42) = 42"
proof -
  have d: "decode64 0x3FB999999999999A = Fin False 7205759403792794 (- 56)"
    by (simp add: decode64_def)
  have a: "(\<bar>valof (Fin False 7205759403792794 (- 56))\<bar> < 10 ^ 15)
             = (numer (Fin False 7205759403792794 (- 56))
                  < 10 ^ 15 * denom (Fin False 7205759403792794 (- 56)))"
    using abs_valof_less [of "Fin False 7205759403792794 (- 56)" "10 ^ 15"] by simp
  have b: "(1 / 10000 \<le> \<bar>valof (Fin False 7205759403792794 (- 56))\<bar>)
             = (denom (Fin False 7205759403792794 (- 56))
                  \<le> 10000 * numer (Fin False 7205759403792794 (- 56)))"
    using abs_valof_ge_inverse [of 10000 "Fin False 7205759403792794 (- 56)"] by simp
  note t = formatValue_numbers [of "0x3FB999999999999A" KInt64 "- 42" KUint 42]
  from t have "formatValue (VFloat64 0x3FB999999999999A) = ''0.1''"
    unfolding d fval.case a b valof_eq_0 valof_Ints by (simp add: format_eval)
  moreover from t have "formatValue (VInt KInt64 (- 42)) = ''-42''"
    by (simp add: show_int_def show_nat_eval digit_char_def)
  moreover from t have "nat_of_digits (show_nat 42) = 42" by blast
  ultimately show ?thesis by blast
qed


section \<open>Sorting and joining\<close>

lemma sorted_sorted_keys: "sorted (sorted_keys m)"
  by (simp add: sorted_keys_def)

lemma length_sorted_keys: "length (sorted_keys m) = length m"
  by (simp add: sorted_keys_def)

lemma length_strings_Join:
  "length (strings_Join xs sep) = sum_list (map length xs) + (length xs - 1) * length sep"
  by (induction xs sep rule: strings_Join.induct) simp_all

lemma sorted_keys_perm:
  assumes "mset m' = mset m"
  shows "sorted_keys m' = sorted_keys m"
proof -
  from assms have "mset (map fst m') = mset (map fst m)" by (metis mset_map)
  then show ?thesis
    unfolding sorted_keys_def by (intro properties_for_sort) simp_all
qed

lemma map_index_perm:
  assumes "distinct (map fst m)" and "mset m' = mset m"
  shows "map_index m' = map_index m"
proof -
  from assms(2) have "mset (map fst m') = mset (map fst m)" by (metis mset_map)
  with assms(1) have "distinct (map fst m')" by (metis mset_eq_imp_distinct_iff)
  moreover from assms(2) have "set m' = set m" by (rule mset_eq_setD)
  ultimately have "map_of m' = map_of m" using assms(1) by (simp add: map_of_inject_set)
  then show ?thesis by (simp add: map_index_def fun_eq_iff)
qed

lemma buildQueryString_perm:
  assumes "distinct (map fst m)" and "mset m' = mset m"
  shows "buildQueryString m' e = buildQueryString m e"
proof -
  have "query_part m' e = query_part m e"
    by (rule ext) (simp add: query_part_def map_index_perm [OF assms])
  then show ?thesis by (simp add: buildQueryString_def sorted_keys_perm [OF assms(2)])
qed

lemma string_order:
  "((c :: char) \<le> d) = ((of_char c :: nat) \<le> of_char d)"
  "(([] :: string) \<le> ys) = True"
  "((x # xs :: string) \<le> []) = False"
  "((x # xs :: string) \<le> y # ys) = (x < y \<or> x = y \<and> xs \<le> ys)"
  by (auto simp: less_eq_char_def)

lemma example_sorted:
  "buildQueryString
     [(''b'', VFloat64 0x3FF0000000000000), (''a'', VFloat64 0x4000000000000000),
      (''timestamp'', VInt KInt64 3)] False
   = ''a=2&b=1&timestamp=3''"
proof -
  have d1: "decode64 0x3FF0000000000000 = Fin False 4503599627370496 (- 52)"
    by (simp add: decode64_def)
  have d2: "decode64 0x4000000000000000 = Fin False 4503599627370496 (- 51)"
    by (simp add: decode64_def)
  have f1: "formatValue (VFloat64 0x3FF0000000000000) = ''1''"
    using formatValue_double_eval [OF d1] by (simp add: format_eval)
  have f2: "formatValue (VFloat64 0x4000000000000000) = ''2''"
    using formatValue_double_eval [OF d2] by (simp add: format_eval)
  have f3: "formatValue (VInt KInt64 3) = ''3''"
    by (simp add: show_int_def show_nat_eval digit_char_def)
  have k: "sorted_keys
     [(''b'', VFloat64 0x3FF0000000000000), (''a'', VFloat64 0x4000000000000000),
      (''timestamp'', VInt KInt64 3)] = [''a'', ''b'', ''timestamp'']"
    by (simp add: sorted_keys_def less_eq_char_def less_char_def)
  show ?thesis
    unfolding buildQueryString_def k
    by (simp add: query_part_def query_value_def map_index_def f1 f2 f3
        del: formatValue.simps)
qed

text \<open>
  C3. The keys are sorted in the lexicographic order of their bytes, whatever the order in
  which the map yields its entries; the parts \<open>key=value\<close> are joined with \<open>&\<close>, one
  separator between two parts and none at the end; the key \<open>timestamp\<close> is sorted like
  any other.
\<close>

theorem buildQueryString_sorted:
  "sorted (sorted_keys m) \<and> set (sorted_keys m) = fst ` set m
   \<and> length (sorted_keys m) = length m
   \<and> ((c :: char) \<le> d) = ((of_char c :: nat) \<le> of_char d)
   \<and> ((x # xs :: string) \<le> y # ys) = (x < y \<or> x = y \<and> xs \<le> ys)
   \<and> buildQueryString m e = strings_Join (map (query_part m e) (sorted_keys m)) ''&''
   \<and> length (buildQueryString m e)
       = sum_list (map (\<lambda>key. length (query_part m e key)) (sorted_keys m)) + (length m - 1)
   \<and> (distinct (map fst m) \<and> mset m' = mset m
        \<longrightarrow> buildQueryString m' e = buildQueryString m e)
   \<and> buildQueryString
        [(''b'', VFloat64 0x3FF0000000000000), (''a'', VFloat64 0x4000000000000000),
         (''timestamp'', VInt KInt64 3)] False
      = ''a=2&b=1&timestamp=3''"
  using buildQueryString_perm [of m m' e] example_sorted
  by (simp add: sorted_sorted_keys set_sorted_keys length_sorted_keys string_order
      buildQueryString_def length_strings_Join comp_def)

theorem buildQueryString_sorted_witness:
  "distinct (map fst [(''b'', VInt KInt64 1), (''a'', VInt KInt64 2)])
   \<and> mset [(''a'', VInt KInt64 2), (''b'', VInt KInt64 1)]
       = mset [(''b'', VInt KInt64 1), (''a'', VInt KInt64 2)]
   \<and> buildQueryString [(''a'', VInt KInt64 2), (''b'', VInt KInt64 1)] False
       = buildQueryString [(''b'', VInt KInt64 1), (''a'', VInt KInt64 2)] False"
  using buildQueryString_sorted
    [where m = "[(''b'', VInt KInt64 1), (''a'', VInt KInt64 2)]"
       and m' = "[(''a'', VInt KInt64 2), (''b'', VInt KInt64 1)]" and e = False]
  by simp

section \<open>Complex values\<close>

lemma containsComplexValues_ex:
  "containsComplexValues fmtG m = list_ex (\<lambda>(k, v). isComplexValue (fmt_v fmtG v)) m"
  by (induction fmtG m rule: containsComplexValues.induct) simp_all

lemma isComplexValue_iff: "isComplexValue s = (CHR ''['' \<in> set s \<or> CHR ''{'' \<in> set s)"
  by (auto simp: isComplexValue_def strings_ContainsAny_def list_ex_iff)

lemma set_strings_TrimRight: "set (strings_TrimRight s cutset) \<subseteq> set s"
proof -
  have "set (dropWhile (\<lambda>c. c \<in> set cutset) (rev s)) \<subseteq> set (rev s)"
    by (auto dest: set_dropWhileD)
  then show ?thesis by (simp add: strings_TrimRight_def)
qed

lemma show_nat_float_chars: "set (show_nat n) \<subseteq> set float_chars"
proof -
  have "set digits_table \<subseteq> set float_chars" by (simp add: digits_table_def float_chars_def)
  with show_nat_digits [of n] show ?thesis by (auto simp: list_all_iff)
qed

lemma fmt_f_float_chars: "set (fmt_f prec f) \<subseteq> set float_chars"
proof (cases f)
  case (Fin s m e)
  have z: "CHR ''0'' \<in> set float_chars" "CHR ''-'' \<in> set float_chars"
    "CHR ''.'' \<in> set float_chars"
    by (simp_all add: float_chars_def)
  show ?thesis
    using show_nat_float_chars z
    by (auto simp: Fin fmt_f_def Let_def pad_left_def)
next
  case (Inf s)
  then show ?thesis by (simp add: fmt_f_def float_chars_def)
next
  case NaN
  then show ?thesis by (simp add: fmt_f_def float_chars_def)
qed

lemma formatFloat_float_chars: "set (formatFloat f) \<subseteq> set float_chars"
proof -
  have t: "set (strings_TrimRight (strings_TrimRight (fmt_f p f) a) b) \<subseteq> set float_chars"
    for p a b
    using set_strings_TrimRight [of "strings_TrimRight (fmt_f p f) a" b]
      set_strings_TrimRight [of "fmt_f p f" a] fmt_f_float_chars [of p f]
    by blast
  have z: "set ''0'' \<subseteq> set float_chars" by (simp add: float_chars_def)
  show ?thesis
    unfolding formatFloat_def formatFloat_with_def Let_def
    using t z fmt_f_float_chars [of 0 f] by simp
qed

lemma float_chars_not_complex: "set s \<subseteq> set float_chars \<Longrightarrow> \<not> isComplexValue s"
  by (auto simp: isComplexValue_iff float_chars_def)

lemma formatFloat_not_complex: "\<not> isComplexValue (formatFloat f)"
  using formatFloat_float_chars by (rule float_chars_not_complex)

lemma show_nat_not_complex: "\<not> isComplexValue (show_nat n)"
  using show_nat_float_chars by (rule float_chars_not_complex)

lemma show_int_not_complex: "\<not> isComplexValue (show_int i)"
proof -
  have "set (show_int i) \<subseteq> set float_chars"
    using show_nat_float_chars by (auto simp: show_int_def float_chars_def)
  then show ?thesis by (rule float_chars_not_complex)
qed

text \<open>
  \<open>containsComplexValues\<close> classifies the \<open>%v\<close> rendering and \<open>buildQueryString\<close>
  the \<open>formatValue\<close> rendering; the two agree on what is complex as soon as the
  \<open>%v\<close> rendering of a float holds no bracket or brace.
\<close>

lemma complex_fmt_v:
  assumes "\<And>bits f. \<not> isComplexValue (fmtG bits f)"
  shows "isComplexValue (fmt_v fmtG v) = isComplexValue (formatValue v)"
  using assms by (cases v) (simp_all add: formatFloat_not_complex)

lemma length_escape_byte: "1 \<le> length (escape_byte c)"
  by (simp add: escape_byte_def)

lemma length_percent_encode: "length s \<le> length (percent_encode s)"
proof (induction s)
  case Nil
  then show ?case by (simp add: percent_encode_def)
next
  case (Cons c s)
  have "1 \<le> length (if c = CHR '' '' then ''%20'' else escape_byte c)"
    using length_escape_byte [of c] by simp
  with Cons show ?case by (simp add: percent_encode_def)
qed

lemma length_percent_encode_complex:
  "isComplexValue s \<Longrightarrow> length s < length (percent_encode s)"
proof (induction s)
  case Nil
  then show ?case by (simp add: isComplexValue_iff)
next
  case (Cons c s)
  have one: "1 \<le> length (if c = CHR '' '' then ''%20'' else escape_byte c)"
    using length_escape_byte [of c] by simp
  have split: "percent_encode (c # s)
                 = (if c = CHR '' '' then ''%20'' else escape_byte c) @ percent_encode s"
    by (simp add: percent_encode_def)
  show ?case
  proof (cases "c = CHR ''['' \<or> c = CHR ''{''")
    case True
    then have "length (if c = CHR '' '' then ''%20'' else escape_byte c) = 3"
      by (auto simp: escape_byte_def shouldEscape_def)
    then show ?thesis using length_percent_encode [of s] by (simp add: split)
  next
    case False
    with Cons.prems have "isComplexValue s" by (auto simp: isComplexValue_iff)
    with Cons.IH have "length s < length (percent_encode s)" by simp
    with one show ?thesis by (simp add: split)
  qed
qed

lemma sum_list_strict:
  fixes f g :: "'a \<Rightarrow> nat"
  assumes "\<And>x. x \<in> set xs \<Longrightarrow> f x \<le> g x" and "y \<in> set xs" and "f y < g y"
  shows "sum_list (map f xs) < sum_list (map g xs)"
  using assms
proof (induction xs)
  case Nil
  then show ?case by simp
next
  case (Cons x xs)
  have le: "sum_list (map f xs) \<le> sum_list (map g xs)"
    using Cons.prems(1) by (intro sum_list_mono) simp
  show ?case
  proof (cases "y = x")
    case True
    with Cons.prems(3) le show ?thesis by simp
  next
    case False
    with Cons.prems have "y \<in> set xs" by simp
    with Cons have "sum_list (map f xs) < sum_list (map g xs)" by simp
    moreover have "f x \<le> g x" using Cons.prems(1) by simp
    ultimately show ?thesis by simp
  qed
qed

lemma complex_longer:
  assumes "key \<in> set (sorted_keys m)"
    and "isComplexValue (formatValue (map_index m key))"
  shows "length (buildQueryString m False) < length (buildQueryString m True)"
proof -
  have le: "length (query_part m False k) \<le> length (query_part m True k)" for k
    using length_percent_encode [of "formatValue (map_index m k)"]
    by (simp add: query_part_percent)
  have lt: "length (query_part m False key) < length (query_part m True key)"
    using length_percent_encode_complex [OF assms(2)] assms(2)
    by (simp add: query_part_percent)
  have "sum_list (map (\<lambda>k. length (query_part m False k)) (sorted_keys m))
          < sum_list (map (\<lambda>k. length (query_part m True k)) (sorted_keys m))"
    using le assms(1) lt by (rule sum_list_strict)
  then show ?thesis
    by (simp add: buildQueryString_def length_strings_Join comp_def)
qed

lemma map_index_distinct:
  "distinct (map fst m) \<Longrightarrow> (k, v) \<in> set m \<Longrightarrow> map_index m k = v"
  by (simp add: map_index_def)

text \<open>
  C10. For a well-formed parameter map, and a \<open>%v\<close> rendering of floats that holds no
  \<open>[\<close> or \<open>{\<close>, \<open>containsComplexValues\<close> holds if and only if the canonical string
  built with \<open>urlEncode = true\<close> differs from the one built with \<open>urlEncode = false\<close>.
\<close>

theorem containsComplexValues_iff_differs:
  assumes "distinct (map fst m)" and "\<forall>bits f. \<not> isComplexValue (fmtG bits f)"
  shows "containsComplexValues fmtG m
           = (buildQueryString m True \<noteq> buildQueryString m False)"
proof (cases "list_all (\<lambda>(k, v). \<not> isComplexValue (formatValue v)) m")
  case True
  then have "\<not> containsComplexValues fmtG m"
    using assms(2) by (auto simp: containsComplexValues_ex list_ex_iff list_all_iff complex_fmt_v)
  with no_complex_same [OF True] show ?thesis by simp
next
  case False
  then obtain k v where kv: "(k, v) \<in> set m" "isComplexValue (formatValue v)"
    by (auto simp: list_all_iff)
  then have c: "containsComplexValues fmtG m"
    using assms(2) by (auto simp: containsComplexValues_ex list_ex_iff complex_fmt_v)
  from kv(1) have "k \<in> set (sorted_keys m)" by (force simp: set_sorted_keys)
  moreover from kv have "isComplexValue (formatValue (map_index m k))"
    using map_index_distinct [OF assms(1) kv(1)] by simp
  ultimately have "length (buildQueryString m False) < length (buildQueryString m True)"
    by (rule complex_longer)
  then have "buildQueryString m True \<noteq> buildQueryString m False" by auto
  with c show ?thesis by simp
qed

theorem containsComplexValues_iff_differs_witness:
  "distinct (map fst [(''stopLoss'', VString ''{}''), (''symbol'', VString ''BTC-USDT'')])
   \<and> (\<forall>bits f. \<not> isComplexValue ((\<lambda>bits f. ''1'') bits f))
   \<and> containsComplexValues (\<lambda>bits f. ''1'')
        [(''stopLoss'', VString ''{}''), (''symbol'', VString ''BTC-USDT'')]
   \<and> buildQueryString [(''stopLoss'', VString ''{}''), (''symbol'', VString ''BTC-USDT'')] True
       \<noteq> buildQueryString
           [(''stopLoss'', VString ''{}''), (''symbol'', VString ''BTC-USDT'')] False"
proof -
  have d: "distinct (map fst [(''stopLoss'', VString ''{}''), (''symbol'', VString ''BTC-USDT'')])"
    by simp
  have g: "\<forall>bits f. \<not> isComplexValue ((\<lambda>bits f. ''1'') bits f)"
    by (simp add: isComplexValue_iff)
  have c: "containsComplexValues (\<lambda>bits f. ''1'')
        [(''stopLoss'', VString ''{}''), (''symbol'', VString ''BTC-USDT'')]"
    by (simp add: isComplexValue_iff)
  from containsComplexValues_iff_differs [OF d g] c d g show ?thesis by simp
qed


section \<open>Request assembly\<close>

lemma last_param_append:
  assumes "CHR ''&'' \<notin> set s"
  shows "last_param (q @ ''&'' @ s) = s"
proof -
  have "takeWhile (\<lambda>c. c \<noteq> CHR ''&'') (rev s @ CHR ''&'' # rev q) = rev s"
    by (subst takeWhile_append2) (use assms in auto)
  then show ?thesis by (simp add: last_param_def)
qed

lemma amp_not_hex: "CHR ''&'' \<notin> set hextable"
  by (simp add: hextable_def)

lemma sign_no_amp: "CHR ''&'' \<notin> set (sign c message)"
  using sign_chars [of c message] amp_not_hex by (auto simp: list_all_iff)

lemma map_index_assign: "map_index (map_assign m key v) key = v"
  by (simp add: map_index_def map_assign_def update_conv')

text \<open>
  C1. The signature is the HMAC of the canonical string built with \<open>urlEncode = false\<close>
  over the parameters with the timestamp; the transmitted string is rebuilt with
  \<open>urlEncode = true\<close> exactly when the \<open>%v\<close> rendering of some value contains \<open>[\<close>
  or \<open>{\<close>, and is the signed string otherwise; the final query is the transmitted string,
  \<open>&signature=\<close> and the hexadecimal signature, which is therefore its last parameter.
  When the \<open>%v\<close> rendering of a float holds no \<open>[\<close> or \<open>{\<close>, the test on the
  \<open>%v\<close> renderings is the test on the formatted values.
\<close>

theorem finalQuery_signature_last:
  "finalQuery fmtG c params timestamp =
     (let m = map_assign (case params of None \<Rightarrow> [] | Some m \<Rightarrow> m) ''timestamp''
                (VInt KInt64 timestamp);
          signed = buildQueryString m False;
          transmitted =
            (if list_ex (\<lambda>(k, v). isComplexValue (fmt_v fmtG v)) m
             then buildQueryString m True else signed)
      in transmitted @ ''&signature=''
           @ hex_EncodeToString
               (hmac_sha256 (bytes_of_string (apiSecret c)) (bytes_of_string signed)))
   \<and> last_param (finalQuery fmtG c params timestamp) =
       ''signature='' @ sign c
          (buildQueryString
             (map_assign (case params of None \<Rightarrow> [] | Some m \<Rightarrow> m) ''timestamp''
                (VInt KInt64 timestamp)) False)
   \<and> map_index (map_assign (case params of None \<Rightarrow> [] | Some m \<Rightarrow> m) ''timestamp''
                   (VInt KInt64 timestamp)) ''timestamp'' = VInt KInt64 timestamp
   \<and> reqURL fmtG c endpoint params timestamp
       = baseURL c @ endpoint @ ''?'' @ finalQuery fmtG c params timestamp
   \<and> ((\<forall>bits f. \<not> isComplexValue (fmtG bits f)) \<longrightarrow>
         containsComplexValues fmtG m'
           = list_ex (\<lambda>(k, v). isComplexValue (formatValue v)) m')"
proof -
  define m where "m = map_assign (case params of None \<Rightarrow> [] | Some m \<Rightarrow> m) ''timestamp''
                (VInt KInt64 timestamp)"
  define q where
    "q = (if containsComplexValues fmtG m then buildQueryString m True
          else buildQueryString m False)"
  have fq: "finalQuery fmtG c params timestamp
              = q @ ''&'' @ (''signature='' @ sign c (buildQueryString m False))"
    by (simp add: finalQuery_def Let_def m_def q_def)
  have "CHR ''&'' \<notin> set (''signature='' @ sign c (buildQueryString m False))"
    using sign_no_amp [of c "buildQueryString m False"] by simp
  then have "last_param (finalQuery fmtG c params timestamp)
               = ''signature='' @ sign c (buildQueryString m False)"
    unfolding fq by (rule last_param_append)
  then have c2: "last_param (finalQuery fmtG c params timestamp) =
       ''signature='' @ sign c
          (buildQueryString
             (map_assign (case params of None \<Rightarrow> [] | Some m \<Rightarrow> m) ''timestamp''
                (VInt KInt64 timestamp)) False)"
    by (simp only: m_def)
  have c1: "finalQuery fmtG c params timestamp =
     (let m = map_assign (case params of None \<Rightarrow> [] | Some m \<Rightarrow> m) ''timestamp''
                (VInt KInt64 timestamp);
          signed = buildQueryString m False;
          transmitted =
            (if list_ex (\<lambda>(k, v). isComplexValue (fmt_v fmtG v)) m
             then buildQueryString m True else signed)
      in transmitted @ ''&signature=''
           @ hex_EncodeToString
               (hmac_sha256 (bytes_of_string (apiSecret c)) (bytes_of_string signed)))"
    by (simp add: finalQuery_def Let_def containsComplexValues_ex sign_def)
  have c3: "map_index (map_assign (case params of None \<Rightarrow> [] | Some m \<Rightarrow> m) ''timestamp''
                   (VInt KInt64 timestamp)) ''timestamp'' = VInt KInt64 timestamp"
    by (rule map_index_assign)
  have c4: "reqURL fmtG c endpoint params timestamp
       = baseURL c @ endpoint @ ''?'' @ finalQuery fmtG c params timestamp"
    by (simp add: reqURL_def)
  have c5: "(\<forall>bits f. \<not> isComplexValue (fmtG bits f)) \<longrightarrow>
         containsComplexValues fmtG m'
           = list_ex (\<lambda>(k, v). isComplexValue (formatValue v)) m'"
    by (auto simp: containsComplexValues_ex list_ex_iff complex_fmt_v)
  from c1 c2 c3 c4 c5 show ?thesis by (intro conjI)
qed

theorem finalQuery_signature_last_witness:
  "(\<forall>bits f. \<not> isComplexValue ((\<lambda>bits f. ''1'') bits f))
   \<and> containsComplexValues (\<lambda>bits f. ''1'') [(''price'', VFloat64 0)]
       = list_ex (\<lambda>(k, v). isComplexValue (formatValue v)) [(''price'', VFloat64 0)]
   \<and> last_param (finalQuery (\<lambda>bits f. ''1'')
       \<lparr> apiKey = ''k'', apiSecret = ''s'', baseURL = [], httpClient = DefaultClient \<rparr>
       (Some [(''symbol'', VString ''BTC-USDT'')]) 1700000000000)
   = ''signature='' @ sign
       \<lparr> apiKey = ''k'', apiSecret = ''s'', baseURL = [], httpClient = DefaultClient \<rparr>
       ''symbol=BTC-USDT&timestamp=1700000000000''"
proof -
  have eq: "buildQueryString
          (map_assign [(''symbol'', VString ''BTC-USDT'')] ''timestamp''
             (VInt KInt64 1700000000000)) False
        = ''symbol=BTC-USDT&timestamp=1700000000000''"
    by (simp add: buildQueryString_def sorted_keys_def map_assign_def query_part_def
        query_value_def map_index_def show_int_def show_nat_eval digit_char_def
        less_eq_char_def less_char_def)
  note t = finalQuery_signature_last
      [where fmtG = "\<lambda>bits f. ''1''"
         and c = "\<lparr> apiKey = ''k'', apiSecret = ''s'', baseURL = [],
                    httpClient = DefaultClient \<rparr>"
         and params = "Some [(''symbol'', VString ''BTC-USDT'')]"
         and timestamp = 1700000000000 and endpoint = "[]"
         and m' = "[(''price'', VFloat64 0)]"]
  have g: "\<forall>bits f. \<not> isComplexValue ((\<lambda>bits f. ''1'') bits f)"
    by (simp add: isComplexValue_iff)
  from t [THEN conjunct2, THEN conjunct1]
  have lp: "last_param (finalQuery (\<lambda>bits f. ''1'')
       \<lparr> apiKey = ''k'', apiSecret = ''s'', baseURL = [], httpClient = DefaultClient \<rparr>
       (Some [(''symbol'', VString ''BTC-USDT'')]) 1700000000000)
   = ''signature='' @ sign
       \<lparr> apiKey = ''k'', apiSecret = ''s'', baseURL = [], httpClient = DefaultClient \<rparr>
       ''symbol=BTC-USDT&timestamp=1700000000000''"
    by (simp only: option.case eq)
  from t [THEN conjunct2, THEN conjunct2, THEN conjunct2, THEN conjunct2] g
  have "containsComplexValues (\<lambda>bits f. ''1'') [(''price'', VFloat64 0)]
       = list_ex (\<lambda>(k, v). isComplexValue (formatValue v)) [(''price'', VFloat64 0)]"
    by blast
  with g lp show ?thesis by (intro conjI)
qed

section \<open>What the canonical string determines\<close>

lemma strings_Join_amp:
  "strings_Join (x # xs) ''&'' = x @ (if xs = [] then [] else CHR ''&'' # strings_Join xs ''&'')"
  by (cases xs) simp_all

lemma strings_Join_eq_Nil:
  "\<forall>x \<in> set xs. x \<noteq> [] \<Longrightarrow> (strings_Join xs ''&'' = []) = (xs = [])"
  by (cases xs) (simp_all add: strings_Join_amp)

lemma takeWhile_stop: "c \<notin> set x \<Longrightarrow> takeWhile (\<lambda>d. d \<noteq> c) (x @ c # r) = x"
  by (induction x) auto

lemma takeWhile_all: "c \<notin> set x \<Longrightarrow> takeWhile (\<lambda>d. d \<noteq> c) x = x"
  by (induction x) auto

lemma takeWhile_until:
  assumes "c \<notin> set x"
  shows "takeWhile (\<lambda>d. d \<noteq> c) (x @ (if r = [] then [] else c # r')) = x"
proof (cases "r = []")
  case True
  then show ?thesis using takeWhile_all [OF assms] by simp
next
  case False
  then show ?thesis using takeWhile_stop [OF assms, of r'] by simp
qed

lemma append_until_inject:
  assumes "c \<notin> set x" and "c \<notin> set y"
    and "x @ c # r = y @ c # s"
  shows "x = y \<and> r = s"
proof -
  have "takeWhile (\<lambda>d. d \<noteq> c) (x @ c # r) = x"
    using assms(1) by (rule takeWhile_stop)
  moreover have "takeWhile (\<lambda>d. d \<noteq> c) (y @ c # s) = y"
    using assms(2) by (rule takeWhile_stop)
  ultimately have "x = y" using assms(3) by simp
  with assms(3) show ?thesis by simp
qed

lemma strings_Join_inject:
  assumes "\<forall>x \<in> set xs. x \<noteq> [] \<and> CHR ''&'' \<notin> set x"
    and "\<forall>y \<in> set ys. y \<noteq> [] \<and> CHR ''&'' \<notin> set y"
    and "strings_Join xs ''&'' = strings_Join ys ''&''"
  shows "xs = ys"
  using assms
proof (induction xs arbitrary: ys)
  case Nil
  then have "strings_Join ys ''&'' = []" by simp
  with Nil(2) have "ys = []" by (simp add: strings_Join_eq_Nil)
  then show ?case by simp
next
  case (Cons x xs)
  from Cons.prems(1) have "strings_Join (x # xs) ''&'' \<noteq> []"
    by (simp add: strings_Join_amp)
  with Cons.prems(3) have "ys \<noteq> []" by auto
  then obtain y ys' where ys: "ys = y # ys'" by (cases ys) auto
  from Cons.prems(1) have x: "CHR ''&'' \<notin> set x" by simp
  from Cons.prems(2) ys have y: "CHR ''&'' \<notin> set y" by simp
  have eq: "x @ (if xs = [] then [] else CHR ''&'' # strings_Join xs ''&'')
            = y @ (if ys' = [] then [] else CHR ''&'' # strings_Join ys' ''&'')"
    using Cons.prems(3) unfolding ys strings_Join_amp .
  have "takeWhile (\<lambda>d. d \<noteq> CHR ''&'')
          (x @ (if xs = [] then [] else CHR ''&'' # strings_Join xs ''&'')) = x"
    using x by (rule takeWhile_until)
  moreover have "takeWhile (\<lambda>d. d \<noteq> CHR ''&'')
          (y @ (if ys' = [] then [] else CHR ''&'' # strings_Join ys' ''&'')) = y"
    using y by (rule takeWhile_until)
  ultimately have xy: "x = y" using eq by simp
  with eq have rest: "(if xs = [] then [] else CHR ''&'' # strings_Join xs ''&'')
            = (if ys' = [] then [] else CHR ''&'' # strings_Join ys' ''&'')" by simp
  have "xs = ys'"
  proof (cases "xs = []")
    case True
    with rest have "ys' = []" by (auto split: if_splits)
    with True show ?thesis by simp
  next
    case False
    with rest have "ys' \<noteq> []" by (auto split: if_splits)
    with rest False have "strings_Join xs ''&'' = strings_Join ys' ''&''" by simp
    moreover have "\<forall>x \<in> set xs. x \<noteq> [] \<and> CHR ''&'' \<notin> set x" using Cons.prems(1) by simp
    moreover have "\<forall>y \<in> set ys'. y \<noteq> [] \<and> CHR ''&'' \<notin> set y"
      using Cons.prems(2) ys by simp
    ultimately show ?thesis by (rule Cons.IH [rotated 2])
  qed
  with xy ys show ?case by simp
qed


lemma sorted_keys_eq:
  assumes "distinct (map fst m)" and "distinct (map fst m')"
    and "fst ` set m = fst ` set m'"
  shows "sorted_keys m = sorted_keys m'"
proof -
  have "sorted (sorted_keys m)" "sorted (sorted_keys m')" by (simp_all add: sorted_keys_def)
  moreover have "distinct (sorted_keys m)" "distinct (sorted_keys m')"
    using assms(1,2) by (simp_all add: sorted_keys_def)
  moreover have "set (sorted_keys m) = set (sorted_keys m')"
    using assms(3) by (simp add: sorted_keys_def)
  ultimately show ?thesis by (intro sorted_distinct_set_unique)
qed

lemma formatted_dom:
  "(map_option formatValue \<circ> map_of m) k = None \<longleftrightarrow> k \<notin> fst ` set m"
  by (simp add: map_of_eq_None_iff)

lemma formatted_lookup:
  "k \<in> fst ` set m \<Longrightarrow> (map_option formatValue \<circ> map_of m) k = Some (formatValue (map_index m k))"
proof -
  assume "k \<in> fst ` set m"
  then have "map_of m k \<noteq> None" by (simp add: map_of_eq_None_iff)
  then obtain v where "map_of m k = Some v" by auto
  then show ?thesis by (simp add: map_index_def)
qed

lemma same_formatted_same_string:
  assumes "distinct (map fst m)" and "distinct (map fst m')"
    and eq: "map_option formatValue \<circ> map_of m = map_option formatValue \<circ> map_of m'"
  shows "buildQueryString m e = buildQueryString m' e"
proof -
  have dom: "fst ` set m = fst ` set m'"
  proof -
    have "k \<in> fst ` set m \<longleftrightarrow> k \<in> fst ` set m'" for k
      using formatted_dom [of m k] formatted_dom [of m' k] eq by simp
    then show ?thesis by blast
  qed
  have keys: "sorted_keys m = sorted_keys m'" using assms(1,2) dom by (rule sorted_keys_eq)
  have "query_part m e k = query_part m' e k" if "k \<in> set (sorted_keys m)" for k
  proof -
    from that have k: "k \<in> fst ` set m" "k \<in> fst ` set m'"
      using dom by (simp_all add: sorted_keys_def)
    have "Some (formatValue (map_index m k)) = (map_option formatValue \<circ> map_of m) k"
      using formatted_lookup [OF k(1)] by (rule sym)
    also have "\<dots> = (map_option formatValue \<circ> map_of m') k"
      using eq by (rule fun_cong)
    also have "\<dots> = Some (formatValue (map_index m' k))"
      by (rule formatted_lookup [OF k(2)])
    finally have "formatValue (map_index m k) = formatValue (map_index m' k)" by simp
    then show ?thesis by (simp add: query_part_def query_value_def)
  qed
  then have "map (query_part m e) (sorted_keys m) = map (query_part m' e) (sorted_keys m)"
    by (intro map_cong [OF refl])
  then show ?thesis by (simp only: buildQueryString_def keys)
qed

lemma part_inject:
  assumes "CHR ''='' \<notin> set k" and "CHR ''='' \<notin> set k'"
    and "k @ ''='' @ v = k' @ ''='' @ v'"
  shows "k = k' \<and> v = v'"
  using append_until_inject [OF assms(1,2), of v v'] assms(3) by simp

lemma same_string_same_formatted:
  assumes "list_all clean_entry m" and "list_all clean_entry m'"
    and eq: "buildQueryString m False = buildQueryString m' False"
  shows "map_option formatValue \<circ> map_of m = map_option formatValue \<circ> map_of m'"
proof -
  let ?p = "\<lambda>m key. key @ ''='' @ formatValue (map_index m key)"
  have clean: "CHR ''='' \<notin> set k \<and> CHR ''&'' \<notin> set k
                 \<and> CHR ''&'' \<notin> set (formatValue (map_index n k))"
    if "list_all clean_entry n" and "k \<in> set (sorted_keys n)" for n k
  proof -
    from that(2) have "(k, map_index n k) \<in> set n"
      by (simp add: set_sorted_keys map_index_mem)
    with that(1) have "clean_entry (k, map_index n k)" by (auto simp: list_all_iff)
    then show ?thesis by (simp add: clean_entry_def)
  qed
  have parts: "\<forall>x \<in> set (map (?p n) (sorted_keys n)). x \<noteq> [] \<and> CHR ''&'' \<notin> set x"
    if "list_all clean_entry n" for n
    using clean [OF that] by auto
  have "strings_Join (map (?p m) (sorted_keys m)) ''&''
          = strings_Join (map (?p m') (sorted_keys m')) ''&''"
    using eq by (simp add: buildQueryString_def query_part_percent)
  with parts [OF assms(1)] parts [OF assms(2)]
  have pe: "map (?p m) (sorted_keys m) = map (?p m') (sorted_keys m')"
    by (rule strings_Join_inject)
  then have len: "length (sorted_keys m) = length (sorted_keys m')"
    by (metis length_map)
  have nth: "sorted_keys m ! i = sorted_keys m' ! i
             \<and> formatValue (map_index m (sorted_keys m ! i))
                 = formatValue (map_index m' (sorted_keys m' ! i))"
    if "i < length (sorted_keys m)" for i
  proof -
    from that len have i': "i < length (sorted_keys m')" by simp
    from pe have "map (?p m) (sorted_keys m) ! i = map (?p m') (sorted_keys m') ! i" by simp
    with that i' have e: "?p m (sorted_keys m ! i) = ?p m' (sorted_keys m' ! i)" by simp
    have "CHR ''='' \<notin> set (sorted_keys m ! i)"
      using clean [OF assms(1), of "sorted_keys m ! i"] that by simp
    moreover have "CHR ''='' \<notin> set (sorted_keys m' ! i)"
      using clean [OF assms(2), of "sorted_keys m' ! i"] i' by simp
    ultimately show ?thesis using e by (rule part_inject)
  qed
  have keys: "sorted_keys m = sorted_keys m'"
    using len nth by (intro nth_equalityI) auto
  have vals: "formatValue (map_index m k) = formatValue (map_index m' k)"
    if "k \<in> set (sorted_keys m)" for k
  proof -
    from that obtain i where "i < length (sorted_keys m)" "sorted_keys m ! i = k"
      by (auto simp: in_set_conv_nth)
    with nth [of i] show ?thesis by auto
  qed
  have dom: "fst ` set m = fst ` set m'"
    using keys set_sorted_keys [of m] set_sorted_keys [of m'] by simp
  show ?thesis
  proof (rule ext)
    fix k
    show "(map_option formatValue \<circ> map_of m) k = (map_option formatValue \<circ> map_of m') k"
    proof (cases "k \<in> fst ` set m")
      case True
      then have ks: "k \<in> set (sorted_keys m)" by (simp add: set_sorted_keys)
      from True dom have k': "k \<in> fst ` set m'" by simp
      have "(map_option formatValue \<circ> map_of m) k = Some (formatValue (map_index m k))"
        by (rule formatted_lookup [OF True])
      also have "\<dots> = Some (formatValue (map_index m' k))"
        using vals [OF ks] by simp
      also have "\<dots> = (map_option formatValue \<circ> map_of m') k"
        by (rule formatted_lookup [OF k', symmetric])
      finally show ?thesis .
    next
      case False
      then show ?thesis
        using formatted_dom [of m k] formatted_dom [of m' k] dom by simp
    qed
  qed
qed

lemma format_20: "formatValue (VFloat64 0x4034000000000000) = ''20''"
proof -
  have "decode64 0x4034000000000000 = Fin False 5629499534213120 (- 48)"
    by (simp add: decode64_def)
  from formatValue_double_eval [OF this] show ?thesis by (simp add: format_eval)
qed

lemma format_20_below: "formatValue (VFloat64 0x4033FFFFFFFFFFFF) = ''20''"
proof -
  have "decode64 0x4033FFFFFFFFFFFF = Fin False 5629499534213119 (- 48)"
    by (simp add: decode64_def)
  from formatValue_double_eval [OF this] show ?thesis by (simp add: format_eval)
qed

lemma price_string:
  "formatValue v = ''20'' \<Longrightarrow> buildQueryString [(''price'', v)] False = ''price=20''"
  by (simp add: buildQueryString_def sorted_keys_def query_part_def query_value_def
      map_index_def isComplexValue_def strings_ContainsAny_def)

text \<open>
  C8, as stated, fails: the \<open>float64\<close> values 20 and 19.999999999999996 are different
  prices with the same canonical string.
\<close>

theorem canonical_string_collision:
  "buildQueryString [(''price'', VFloat64 0x4034000000000000)] False
     = buildQueryString [(''price'', VFloat64 0x4033FFFFFFFFFFFF)] False
   \<and> map_of [(''price'', VFloat64 0x4034000000000000)]
       \<noteq> map_of [(''price'', VFloat64 0x4033FFFFFFFFFFFF)]"
proof -
  have "map_of [(''price'', VFloat64 0x4034000000000000)] ''price''
          \<noteq> map_of [(''price'', VFloat64 0x4033FFFFFFFFFFFF)] ''price''"
    by simp
  then have "map_of [(''price'', VFloat64 0x4034000000000000)]
       \<noteq> map_of [(''price'', VFloat64 0x4033FFFFFFFFFFFF)]"
    by metis
  then show ?thesis
    by (simp only: price_string [OF format_20] price_string [OF format_20_below]) simp
qed

text \<open>
  C8, amended. Parameter sets that are equal as mappings have equal canonical strings.
  For parameter sets with clean entries (no \<open>=\<close> or \<open>&\<close> in a key, no \<open>&\<close> in a
  formatted value) the canonical strings are equal if and only if the two sets have the
  same keys and the same formatted value under each key.
\<close>

theorem canonical_string_formatted:
  assumes "distinct (map fst m)" and "distinct (map fst m')"
  shows "(map_of m = map_of m' \<longrightarrow> buildQueryString m e = buildQueryString m' e)
         \<and> (list_all clean_entry m \<and> list_all clean_entry m' \<longrightarrow>
              (buildQueryString m False = buildQueryString m' False)
                = (map_option formatValue \<circ> map_of m = map_option formatValue \<circ> map_of m'))"
proof -
  have "map_of m = map_of m' \<Longrightarrow> buildQueryString m e = buildQueryString m' e"
    using same_formatted_same_string [OF assms(1,2), of e] by simp
  then show ?thesis
    using same_formatted_same_string [OF assms(1,2), of False] same_string_same_formatted
    by blast
qed

theorem canonical_string_formatted_witness:
  "distinct (map fst [(''price'', VFloat64 0x4034000000000000)])
   \<and> distinct (map fst [(''price'', VFloat64 0x4033FFFFFFFFFFFF)])
   \<and> list_all clean_entry [(''price'', VFloat64 0x4034000000000000)]
   \<and> list_all clean_entry [(''price'', VFloat64 0x4033FFFFFFFFFFFF)]
   \<and> map_option formatValue \<circ> map_of [(''price'', VFloat64 0x4034000000000000)]
       = map_option formatValue \<circ> map_of [(''price'', VFloat64 0x4033FFFFFFFFFFFF)]
   \<and> buildQueryString [(''price'', VFloat64 0x4034000000000000)] False
       = buildQueryString [(''price'', VFloat64 0x4033FFFFFFFFFFFF)] False
   \<and> distinct (map fst [(''symbol'', VString ''BTC-USDT''), (''side'', VString ''BUY'')])
   \<and> distinct (map fst [(''side'', VString ''BUY''), (''symbol'', VString ''BTC-USDT'')])
   \<and> map_of [(''symbol'', VString ''BTC-USDT''), (''side'', VString ''BUY'')]
       = map_of [(''side'', VString ''BUY''), (''symbol'', VString ''BTC-USDT'')]
   \<and> buildQueryString [(''symbol'', VString ''BTC-USDT''), (''side'', VString ''BUY'')] True
       = buildQueryString [(''side'', VString ''BUY''), (''symbol'', VString ''BTC-USDT'')] True"
proof -
  have d: "distinct (map fst [(''price'', VFloat64 0x4034000000000000)])"
    "distinct (map fst [(''price'', VFloat64 0x4033FFFFFFFFFFFF)])" by simp_all
  have c: "list_all clean_entry [(''price'', VFloat64 0x4034000000000000)]"
    "list_all clean_entry [(''price'', VFloat64 0x4033FFFFFFFFFFFF)]"
    by (simp_all add: clean_entry_def format_20 format_20_below del: formatValue.simps)
  have f: "map_option formatValue \<circ> map_of [(''price'', VFloat64 0x4034000000000000)]
       = map_option formatValue \<circ> map_of [(''price'', VFloat64 0x4033FFFFFFFFFFFF)]"
    by (rule ext) (simp add: format_20 format_20_below del: formatValue.simps)
  have d': "distinct (map fst [(''symbol'', VString ''BTC-USDT''), (''side'', VString ''BUY'')])"
    "distinct (map fst [(''side'', VString ''BUY''), (''symbol'', VString ''BTC-USDT'')])"
    by simp_all
  have e: "map_of [(''symbol'', VString ''BTC-USDT''), (''side'', VString ''BUY'')]
       = map_of [(''side'', VString ''BUY''), (''symbol'', VString ''BTC-USDT'')]"
    by (rule ext) simp
  from canonical_string_formatted [OF d, of False] c f
  have "buildQueryString [(''price'', VFloat64 0x4034000000000000)] False
       = buildQueryString [(''price'', VFloat64 0x4033FFFFFFFFFFFF)] False"
    by blast
  moreover from canonical_string_formatted [OF d', of True] e
  have "buildQueryString [(''symbol'', VString ''BTC-USDT''), (''side'', VString ''BUY'')] True
       = buildQueryString [(''side'', VString ''BUY''), (''symbol'', VString ''BTC-USDT'')] True"
    by blast
  ultimately show ?thesis
    using d c f d' e by blast
qed


section \<open>From a request struct to a parameter map\<close>

lemma json_string_eq_Nil: "(json_string s = []) = (s = [])"
proof (cases "s = []")
  case True
  then show ?thesis by (simp add: json_string.simps)
next
  case False
  have "take (utf8_size (map of_char (take 4 s))) s \<noteq> []"
    if "utf8_size (map of_char (take 4 s)) \<noteq> 0"
    using that False by simp
  then have "json_string s \<noteq> []"
    using False by (subst json_string.simps) (auto simp: utf8_replacement_def)
  with False show ?thesis by simp
qed

lemma json_string_ascii: "list_all (\<lambda>c. (of_char c :: nat) < 0x80) s \<Longrightarrow> json_string s = s"
  by (induction s) (subst json_string.simps, simp)+

lemma float64_of_int_zero: "fval_eq (decode64 (float64_of_int 0)) (decode64 f64_0)"
  by (simp add: float64_of_int_def decode64_consts f64_0_def [symmetric] valof_consts)

lemma float64_of_int_nonzero:
  assumes "i \<noteq> 0" and "\<bar>i\<bar> < 2 ^ 64"
  shows "\<not> fval_eq (decode64 (float64_of_int i)) (decode64 f64_0)"
proof -
  from decode64_float64_of_int [OF assms] obtain m e
    where d: "decode64 (float64_of_int i) = Fin (i < 0) m e" and m: "2 ^ 52 \<le> m" by blast
  from m have "m \<noteq> 0" by auto
  then show ?thesis by (simp add: d fval_eq_zero valof_eq_0)
qed

lemma sint_bound: "\<bar>sint (w :: 64 word)\<bar> < 2 ^ 64"
proof -
  have "- (2 ^ 63) \<le> sint w" "sint w < 2 ^ 63"
    using sint_ge [of w] sint_lt [of w] by simp_all
  then show ?thesis by auto
qed

lemma float64_of_sint_zero:
  "fval_eq (decode64 (float64_of_int (sint (w :: 64 word)))) (decode64 f64_0) = (w = 0)"
proof (cases "w = 0")
  case True
  then show ?thesis using float64_of_int_zero by simp
next
  case False
  then have "sint w \<noteq> 0" by (simp add: signed_eq_0_iff)
  with False show ?thesis using float64_of_int_nonzero [OF _ sint_bound] by simp
qed

text \<open>What comes back for a field is zero for the loop exactly when the field is zero.\<close>

lemma json_value_zero:
  "json_value fv = Inr v \<Longrightarrow> isZeroValue v = zero_field fv"
  by (cases fv)
    (auto simp: json_string_eq_Nil float64_of_sint_zero float64_of_int_zero split: if_splits)

lemma isEmptyValue_zero: "isEmptyValue legacy fv \<Longrightarrow> zero_field fv"
  by (cases fv) (auto simp: decode64_consts f64_0_def [symmetric] valof_consts split: if_splits)

lemma json_value_encodable: "encodable fv \<Longrightarrow> \<exists>v. json_value fv = Inr v"
  by (cases fv) simp_all

lemma json_roundtrip_total:
  "list_all (\<lambda>f. encodable (field_val f)) v \<Longrightarrow> \<exists>m. json_roundtrip legacy v = Inr m"
proof (induction v)
  case Nil
  then show ?case by simp
next
  case (Cons f fs)
  then obtain m where m: "json_roundtrip legacy fs = Inr m" by auto
  from Cons.prems obtain x where x: "json_value (field_val f) = Inr x"
    using json_value_encodable [of "field_val f"] by auto
  show ?case by (simp add: m x)
qed

lemma json_roundtrip_entries:
  "json_roundtrip legacy v = Inr m \<Longrightarrow>
     map fst m = map json_name (filter (kept legacy) v)
     \<and> (\<forall>(k, x) \<in> set m. \<exists>f \<in> set v. kept legacy f \<and> json_name f = k
            \<and> json_value (field_val f) = Inr x)"
proof (induction v arbitrary: m)
  case Nil
  then show ?case by simp
next
  case (Cons f fs)
  show ?case
  proof (cases "kept legacy f")
    case False
    with Cons.prems have "json_roundtrip legacy fs = Inr m" by (simp add: kept_def)
    with Cons.IH [of m] False show ?thesis by fastforce
  next
    case True
    with Cons.prems obtain x m' where x: "json_value (field_val f) = Inr x"
      and m': "json_roundtrip legacy fs = Inr m'" and m: "m = (json_name f, x) # m'"
      by (auto simp: kept_def split: sum.splits)
    from Cons.IH [OF m'] True x show ?thesis by (fastforce simp: m)
  qed
qed

lemma removeZeroValues_filter:
  "removeZeroValues es result
     = filter (\<lambda>(k, v). \<not> (\<exists>x. (k, x) \<in> set es \<and> isZeroValue x)) result"
proof (induction es arbitrary: result)
  case Nil
  then show ?case by simp
next
  case (Cons e es)
  obtain k v where e: "e = (k, v)" by (cases e)
  show ?case
    unfolding e removeZeroValues.simps Cons.IH
    by (auto simp: map_delete_def AList.delete_eq intro!: filter_cong)
qed

lemma removeZeroValues_self:
  assumes "distinct (map fst result)"
  shows "removeZeroValues result result = filter (\<lambda>(k, v). \<not> isZeroValue v) result"
proof -
  have "(\<exists>x. (k, x) \<in> set result \<and> isZeroValue x) = isZeroValue v"
    if "(k, v) \<in> set result" for k v
    using that assms by (auto dest: eq_key_imp_eq_value)
  then show ?thesis
    unfolding removeZeroValues_filter by (intro filter_cong) auto
qed

lemma structToMap_Inr:
  assumes "distinct (map json_name v)" and "structToMap legacy v = Inr m"
  obtains r where "json_roundtrip legacy v = Inr r" and "distinct (map fst r)"
    and "m = filter (\<lambda>(k, x). \<not> isZeroValue x) r"
proof -
  from assms(2) obtain r where r: "json_roundtrip legacy v = Inr r"
    and m: "m = removeZeroValues r r"
    by (auto simp: structToMap_def split: sum.splits)
  from json_roundtrip_entries [OF r]
  have "map fst r = map json_name (filter (kept legacy) v)" by simp
  with assms(1) have d: "distinct (map fst r)" by (simp add: distinct_map_filter)
  with m have "m = filter (\<lambda>(k, x). \<not> isZeroValue x) r" by (simp add: removeZeroValues_self)
  with r d show ?thesis by (rule that)
qed

lemma structToMap_keys:
  assumes "distinct (map json_name v)" and "structToMap legacy v = Inr m"
  shows "distinct (map fst m)"
    and "fst ` set m = json_name ` {f \<in> set v. \<not> zero_field (field_val f)}"
proof -
  from assms obtain r where r: "json_roundtrip legacy v = Inr r"
    and d: "distinct (map fst r)" and m: "m = filter (\<lambda>(k, x). \<not> isZeroValue x) r"
    by (rule structToMap_Inr)
  note ent = json_roundtrip_entries [OF r]
  show "distinct (map fst m)" using d by (simp add: m distinct_map_filter)
  show "fst ` set m = json_name ` {f \<in> set v. \<not> zero_field (field_val f)}"
  proof (intro set_eqI iffI)
    fix k
    assume "k \<in> fst ` set m"
    then obtain x where kx: "(k, x) \<in> set r" "\<not> isZeroValue x" by (auto simp: m)
    with ent obtain f where f: "f \<in> set v" "json_name f = k" "json_value (field_val f) = Inr x"
      by fastforce
    from json_value_zero [OF f(3)] kx(2) have "\<not> zero_field (field_val f)" by simp
    with f show "k \<in> json_name ` {f \<in> set v. \<not> zero_field (field_val f)}" by auto
  next
    fix k
    assume "k \<in> json_name ` {f \<in> set v. \<not> zero_field (field_val f)}"
    then obtain f where f: "f \<in> set v" "\<not> zero_field (field_val f)" "k = json_name f" by auto
    then have "kept legacy f" using isEmptyValue_zero [of legacy "field_val f"]
      by (auto simp: kept_def)
    with f(1) have "json_name f \<in> set (map json_name (filter (kept legacy) v))" by simp
    with ent have "json_name f \<in> set (map fst r)" by simp
    then obtain x where x: "(json_name f, x) \<in> set r" by auto
    with ent obtain f' where f': "f' \<in> set v" "json_name f' = json_name f"
      "json_value (field_val f') = Inr x" by fastforce
    from assms(1) have "inj_on json_name (set v)" by (simp add: distinct_map)
    with f(1) f'(1,2) have "f' = f" by (auto dest: inj_onD)
    with f'(3) f(2) have "\<not> isZeroValue x" using json_value_zero [of "field_val f" x] by simp
    with x show "k \<in> fst ` set m" by (force simp: m f(3))
  qed
qed

lemma structToMap_total:
  "list_all (\<lambda>f. encodable (field_val f)) v \<Longrightarrow> \<exists>m. structToMap legacy v = Inr m"
  using json_roundtrip_total [of v legacy] by (auto simp: structToMap_def)

lemma PlaceOrderRequest_names: "distinct (map json_name (PlaceOrderRequest_fields req))"
  by (simp add: PlaceOrderRequest_fields_def field_def)

lemma PlaceOrderRequest_price:
  "field ''price'' True (FFloat64 (Price req)) \<in> set (PlaceOrderRequest_fields req)"
  by (simp add: PlaceOrderRequest_fields_def)

lemma zero_price_dropped:
  assumes "structToMap legacy (PlaceOrderRequest_fields (req\<lparr>Price := 0\<rparr>)) = Inr m"
  shows "''price'' \<notin> set (sorted_keys m)"
proof
  let ?v = "PlaceOrderRequest_fields (req\<lparr>Price := 0\<rparr>)"
  assume "''price'' \<in> set (sorted_keys m)"
  then have "''price'' \<in> json_name ` {f \<in> set ?v. \<not> zero_field (field_val f)}"
    using structToMap_keys(2) [OF PlaceOrderRequest_names assms] by (simp add: set_sorted_keys)
  then obtain f where f: "f \<in> set ?v" "\<not> zero_field (field_val f)" "json_name f = ''price''"
    by auto
  have p: "field ''price'' True (FFloat64 0) \<in> set ?v"
    using PlaceOrderRequest_price [of "req\<lparr>Price := 0\<rparr>"] by simp
  have inj: "inj_on json_name (set ?v)"
    using PlaceOrderRequest_names [of "req\<lparr>Price := 0\<rparr>"] by (simp only: distinct_map)
  have "json_name f = json_name (field ''price'' True (FFloat64 0))"
    using f(3) by (simp add: field_def)
  with inj have "f = field ''price'' True (FFloat64 0)"
    using f(1) p by (rule inj_onD)
  with f(2) show False
    by (simp add: field_def decode64_consts f64_0_def [symmetric] valof_consts)
qed

lemma request_names: "distinct (map json_name (request_fields r))"
  by (cases r)
    (simp_all add: PlaceOrderRequest_fields_def CancelAllOrdersRequest_fields_def
      SetLeverageRequest_fields_def CloseAllPositionsRequest_fields_def
      SetMarginTypeRequest_fields_def field_def)

text \<open>
  C6. The field names of every request type are distinct. For a struct with distinct field
  names the conversion succeeds when no float field is a NaN or an infinity, and the keys of
  the resulting parameter map, which are the keys of the canonical string, are the names
  of the fields that do not hold the zero value of their type: a field that holds the empty
  string or a numeric zero is not among them. A \<open>PlaceOrderRequest\<close> with
  \<open>Price = 0\<close> yields no \<open>price\<close> key.
\<close>

theorem structToMap_drops_zero_fields:
  assumes "distinct (map json_name v)"
  shows "(list_all (\<lambda>f. encodable (field_val f)) v \<longrightarrow> (\<exists>m. structToMap legacy v = Inr m))
   \<and> (\<forall>m. structToMap legacy v = Inr m \<longrightarrow>
          distinct (map fst m)
          \<and> set (sorted_keys m) = json_name ` {f \<in> set v. \<not> zero_field (field_val f)}
          \<and> (\<forall>f \<in> set v. zero_field (field_val f) \<longrightarrow> json_name f \<notin> set (sorted_keys m))
          \<and> (\<forall>e. buildQueryString m e
                   = strings_Join (map (query_part m e) (sorted_keys m)) ''&''))
   \<and> (\<forall>req m. structToMap legacy (PlaceOrderRequest_fields (req\<lparr>Price := 0\<rparr>)) = Inr m
          \<longrightarrow> ''price'' \<notin> set (sorted_keys m))
   \<and> (\<forall>r. distinct (map json_name (request_fields r)))"
proof (intro conjI allI impI)
  assume "list_all (\<lambda>f. encodable (field_val f)) v"
  then show "\<exists>m. structToMap legacy v = Inr m" by (rule structToMap_total)
next
  fix m
  assume m: "structToMap legacy v = Inr m"
  show "distinct (map fst m)" using assms m by (rule structToMap_keys)
  show keys: "set (sorted_keys m) = json_name ` {f \<in> set v. \<not> zero_field (field_val f)}"
    using structToMap_keys(2) [OF assms m] by (simp add: set_sorted_keys)
  show "\<forall>f \<in> set v. zero_field (field_val f) \<longrightarrow> json_name f \<notin> set (sorted_keys m)"
  proof (intro ballI impI notI)
    fix f
    assume f: "f \<in> set v" "zero_field (field_val f)" "json_name f \<in> set (sorted_keys m)"
    from f(3) keys obtain f' where f': "f' \<in> set v" "\<not> zero_field (field_val f')"
      "json_name f' = json_name f" by auto
    from assms have "inj_on json_name (set v)" by (simp add: distinct_map)
    with f(1) f'(1,3) have "f' = f" by (auto dest: inj_onD)
    with f(2) f'(2) show False by simp
  qed
  fix e
  show "buildQueryString m e = strings_Join (map (query_part m e) (sorted_keys m)) ''&''"
    by (simp add: buildQueryString_def)
next
  fix req m
  assume "structToMap legacy (PlaceOrderRequest_fields (req\<lparr>Price := 0\<rparr>)) = Inr m"
  then show "''price'' \<notin> set (sorted_keys m)" by (rule zero_price_dropped)
next
  fix r
  show "distinct (map json_name (request_fields r))" by (rule request_names)
qed


theorem structToMap_drops_zero_fields_witness:
  "distinct (map json_name
      (SetLeverageRequest_fields \<lparr> SetLeverageRequest.Symbol = ''BTC-USDT'', SetLeverageRequest.Side = ''LONG'',
         SetLeverageRequest.Leverage = 0 \<rparr>))
   \<and> structToMap False
        (SetLeverageRequest_fields \<lparr> SetLeverageRequest.Symbol = ''BTC-USDT'', SetLeverageRequest.Side = ''LONG'',
         SetLeverageRequest.Leverage = 0 \<rparr>)
       = Inr [(''symbol'', VString ''BTC-USDT''), (''side'', VString ''LONG'')]
   \<and> ''leverage'' \<notin> set (sorted_keys [(''symbol'', VString ''BTC-USDT''), (''side'', VString ''LONG'')])"
proof -
  let ?v = "SetLeverageRequest_fields \<lparr> SetLeverageRequest.Symbol = ''BTC-USDT'', SetLeverageRequest.Side = ''LONG'',
         SetLeverageRequest.Leverage = 0 \<rparr>"
  let ?m = "[(''symbol'', VString ''BTC-USDT''), (''side'', VString ''LONG'')]"
  have d: "distinct (map json_name ?v)"
    by (simp add: SetLeverageRequest_fields_def field_def)
  have z: "isZeroValue (VFloat64 (float64_of_int 0))"
    using float64_of_int_zero by simp
  have s: "structToMap False ?v = Inr ?m"
    using z
    by (simp add: structToMap_def SetLeverageRequest_fields_def field_def json_string_ascii
        map_delete_def del: isZeroValue.simps(3))
  have f: "field ''leverage'' False (FInt 0) \<in> set ?v"
    by (simp add: SetLeverageRequest_fields_def)
  from structToMap_drops_zero_fields [OF d, of False] s f
  have "''leverage'' \<notin> set (sorted_keys ?m)"
    by (auto simp: field_def)
  with d s show ?thesis by blast
qed

end
